theory Spec2Isabelle
  imports Main "HOL-Library.Word"
begin

unbundle bit_operations_syntax

section \<open>The serial link and the PC-side world\<close>

text \<open>
  The device section of \<^verbatim>\<open>pc_companion.py\<close> (everything under
  \<^verbatim>\<open>if ACT_CONNECT_DEV\<close>) talks to the device through a pyserial port opened with a
  per-read timeout. The port is external to the repository; it is modelled by its
  contract. What the device will send is a script \<open>rx\<close>: \<open>Some b\<close> is a byte that
  arrives in time, \<open>None\<close> is one read timeout that elapses with nothing arriving, and
  the end of the script is a device that stays silent. Every call the script makes on
  the outside world (port writes, port reads, prints, file opens and file writes) is
  appended to \<open>trace\<close> in the order of the calls. \<open>files\<close> is the content of the files
  on the PC, by path.

  Modelled below: \<^verbatim>\<open>wait_ready\<close>, \<^verbatim>\<open>read_32le\<close>, \<^verbatim>\<open>calculate_checksum\<close>, the
  retrieval of the listing, the dump loop and the upload with its wipe or reformat.
  Left out: the argument parsing and the menu, the generation of the file system, the
  opening and closing of the port with the ping and the firmware line, the table
  printed by \<^verbatim>\<open>--list-files\<close>, and \<^verbatim>\<open>prepare_fs\<close>, which empties the directory before
  a dump.
\<close>

type_synonym byte = "8 word"

text \<open>
  One constructor for each \<^verbatim>\<open>print\<close> of the modelled code, carrying the values the
  line formats: \<open>Err\<close> for the lines that start with \<^verbatim>\<open>[ERR]\<close>, \<open>Wrn\<close> for
  \<^verbatim>\<open>[WRN]\<close>, \<open>Dbg\<close> for the \<^verbatim>\<open>[DBG]\<close> lines printed under \<^verbatim>\<open>VERBOSE\<close>, \<open>Msg\<close> for
  the progress lines.
\<close>

datatype message =
    ErrReadyTimeout
  | ErrReadyInvalid byte
  | ErrIncompleteRead nat
  | DbgRetrievingInfo
  | DbgStats nat nat
  | MsgRetrievingListing
  | MsgDumping
  | MsgDumpFile string string
  | ErrNotExist string
  | ErrCannotOpen string
  | WrnSizeChanged nat nat
  | DbgRetrieved nat nat byte
  | ErrIncomplete nat nat
  | ErrChecksum
  | MsgRemovingAll
  | ErrDeleteFailed
  | ErrUnexpectedResult byte
  | MsgConfirmReformat
  | ErrDecisionTimeout
  | MsgDeclined
  | ErrUnexpectedDecision byte
  | MsgReformatting
  | ErrReformatTimeout
  | ErrReformatFailed
  | ErrUnexpectedReformat byte
  | MsgNotReformatted
  | MsgUploading
  | MsgUploadFile string string
  | ErrOpenTimeout string
  | ErrCannotCreate string
  | ErrUnexpectedOpen byte
  | DbgComplete
  | ErrWriteTimeout
  | ErrChecksumResend
  | ErrUnableWrite string nat
  | ErrUnexpectedBlock byte
  | DbgWritten nat string nat
  | DbgTerminating

text \<open>
  \<open>Tx\<close> is one \<^verbatim>\<open>device.write\<close>; \<open>Rx n bs\<close> is one \<^verbatim>\<open>device.read(n)\<close> that returned
  \<open>bs\<close>; \<open>RxUntil t bs\<close> is one \<^verbatim>\<open>device.read_until(t)\<close>; \<open>FOpen\<close> and \<open>FWrite\<close> are
  \<^verbatim>\<open>open(path, 'wb')\<close> and \<^verbatim>\<open>f.write\<close>.
\<close>

datatype event =
    Tx "byte list"
  | Rx nat "byte list"
  | RxUntil byte "byte list"
  | Print message
  | FOpen string
  | FWrite string "byte list"

text \<open>
  How a run ends early: \<^verbatim>\<open>exit(n)\<close>, or one of the Python exceptions that the code
  can raise and does not catch.
\<close>

datatype error =
    Exit nat
  | IndexError
  | UnicodeDecodeError
  | UnicodeEncodeError
  | KeyError
  | OSError

record world =
  rx :: "byte option list"
  trace :: "event list"
  files :: "string \<rightharpoonup> byte list"

text \<open>
  The settings the device section reads, and what the environment decides: how many
  reads fit into the reformat-request window and into the reformat window
  (\<open>req_polls\<close>, \<open>fmt_polls\<close>), and whether a destination file and its directories can
  be created.
\<close>

record config =
  VERBOSE :: bool
  NO_REFORMAT :: bool
  FS_PATH :: string
  req_polls :: nat
  fmt_polls :: nat
  creatable :: "string \<Rightarrow> bool"

type_synonym 'a result = "(error + 'a) \<times> world"

definition emit :: "event \<Rightarrow> world \<Rightarrow> world" where
  "emit e w = w\<lparr>trace := trace w @ [e]\<rparr>"

definition print :: "message \<Rightarrow> world \<Rightarrow> world" where
  "print m w = emit (Print m) w"

definition print_if :: "bool \<Rightarrow> message \<Rightarrow> world \<Rightarrow> world" where
  "print_if c m w = (if c then print m w else w)"

definition device_write :: "byte list \<Rightarrow> world \<Rightarrow> world" where
  "device_write bs w = emit (Tx bs) w"

text \<open>\<^verbatim>\<open>device.read(n)\<close>: up to \<open>n\<close> bytes, fewer when a timeout comes first.\<close>

fun take_rx :: "nat \<Rightarrow> byte option list \<Rightarrow> byte list \<times> byte option list" where
  "take_rx 0 xs = ([], xs)"
| "take_rx (Suc n) [] = ([], [])"
| "take_rx (Suc n) (None # xs) = ([], xs)"
| "take_rx (Suc n) (Some b # xs) = (case take_rx n xs of (bs, r) \<Rightarrow> (b # bs, r))"

definition device_read :: "nat \<Rightarrow> world \<Rightarrow> byte list \<times> world" where
  "device_read n w =
     (case take_rx n (rx w) of (bs, r) \<Rightarrow> (bs, emit (Rx n bs) (w\<lparr>rx := r\<rparr>)))"

text \<open>
  \<^verbatim>\<open>device.read_until(t)\<close>: bytes up to and including the first \<open>t\<close>, or what
  arrived before a timeout.
\<close>

fun take_until :: "byte \<Rightarrow> byte option list \<Rightarrow> byte list \<times> byte option list" where
  "take_until t [] = ([], [])"
| "take_until t (None # xs) = ([], xs)"
| "take_until t (Some b # xs) =
     (if b = t then ([b], xs) else (case take_until t xs of (bs, r) \<Rightarrow> (b # bs, r)))"

definition device_read_until :: "byte \<Rightarrow> world \<Rightarrow> byte list \<times> world" where
  "device_read_until t w =
     (case take_until t (rx w) of (bs, r) \<Rightarrow> (bs, emit (RxUntil t bs) (w\<lparr>rx := r\<rparr>)))"

section \<open>Helpers of the device section\<close>

text \<open>
  \<^verbatim>\<open>wait_ready\<close>: one \<^verbatim>\<open>device.read()\<close>; nothing read or a byte other than
  \<^verbatim>\<open>b'>'\<close> prints an error and calls \<^verbatim>\<open>exit(1)\<close>.
\<close>

definition wait_ready :: "world \<Rightarrow> unit result" where
  "wait_ready w =
     (case device_read 1 w of (result, w1) \<Rightarrow>
        if length result = 0 then (Inl (Exit 1), print ErrReadyTimeout w1)
        else if result \<noteq> [0x3E] then (Inl (Exit 1), print (ErrReadyInvalid (hd result)) w1)
        else (Inr (), w1))"

text \<open>\<^verbatim>\<open>struct.unpack('<L', data)[0]\<close> on four bytes.\<close>

definition unpack_le32 :: "byte list \<Rightarrow> nat" where
  "unpack_le32 data =
     unat (data ! 0) + 256 * unat (data ! 1) + 65536 * unat (data ! 2)
       + 16777216 * unat (data ! 3)"

definition read_32le :: "world \<Rightarrow> (nat \<times> byte list) result" where
  "read_32le w =
     (case device_read 4 w of (data, w1) \<Rightarrow>
        if length data \<noteq> 4 then (Inl (Exit 1), print (ErrIncompleteRead (length data)) w1)
        else (Inr (unpack_le32 data, data), w1))"

text \<open>
  \<^verbatim>\<open>calculate_checksum(*args)\<close> on Python integers: the sum of the sums of the
  arrays, masked, subtracted from \<^verbatim>\<open>0x100\<close>, masked again.
\<close>

definition calculate_checksum :: "byte list list \<Rightarrow> int" where
  "calculate_checksum args =
     (0x100 - (sum_list (map (\<lambda>array. sum_list (map uint array)) args) AND 0xFF)) AND 0xFF"

text \<open>\<^verbatim>\<open>bytes.decode('ascii')\<close> and \<^verbatim>\<open>str.encode('ascii')\<close>: both raise on a value above 127.\<close>

definition ascii_decode :: "byte list \<Rightarrow> error + string" where
  "ascii_decode bs =
     (if list_all (\<lambda>b. unat b < 128) bs then Inr (map (\<lambda>b. char_of (unat b)) bs)
      else Inl UnicodeDecodeError)"

definition ascii_encode :: "string \<Rightarrow> error + byte list" where
  "ascii_encode s =
     (if list_all (\<lambda>c. (of_char c :: nat) < 128) s then Inr (map (\<lambda>c. of_nat (of_char c)) s)
      else Inl UnicodeEncodeError)"

text \<open>
  \<^verbatim>\<open>fs_listing[path] = size\<close> on a Python dict, which keeps insertion order: an
  existing key keeps its place and takes the new value, a new key goes to the end.
\<close>

fun dict_set :: "'k \<Rightarrow> 'v \<Rightarrow> ('k \<times> 'v) list \<Rightarrow> ('k \<times> 'v) list" where
  "dict_set k v [] = [(k, v)]"
| "dict_set k v (p # ps) = (if fst p = k then (k, v) # ps else p # dict_set k v ps)"

text \<open>\<^verbatim>\<open>os.path.join(a, b)\<close> for two components, with the POSIX separator.\<close>

definition path_join :: "string \<Rightarrow> string \<Rightarrow> string" where
  "path_join a b =
     (if b \<noteq> [] \<and> hd b = CHR ''/'' then b
      else if a = [] \<or> last a = CHR ''/'' then a @ b
      else a @ ''/'' @ b)"

text \<open>\<^verbatim>\<open>s.removeprefix(p)\<close> and \<^verbatim>\<open>s.replace('\\', '/')\<close>.\<close>

definition removeprefix :: "string \<Rightarrow> string \<Rightarrow> string" where
  "removeprefix p s = (if take (length p) s = p then drop (length p) s else s)"

definition replace_backslash :: "string \<Rightarrow> string" where
  "replace_backslash s = map (\<lambda>c. if c = CHR 0x5C then CHR ''/'' else c) s"

text \<open>\<^verbatim>\<open>open(path, 'wb')\<close> creates or truncates the file; \<^verbatim>\<open>f.write(data)\<close> fills it.\<close>

definition open_wb :: "string \<Rightarrow> world \<Rightarrow> world" where
  "open_wb path w = emit (FOpen path) (w\<lparr>files := (files w)(path \<mapsto> [])\<rparr>)"

definition file_write :: "string \<Rightarrow> byte list \<Rightarrow> world \<Rightarrow> world" where
  "file_write path data w = emit (FWrite path data) (w\<lparr>files := (files w)(path \<mapsto> data)\<rparr>)"

section \<open>Retrieving the file system listing\<close>

lemma take_rx_length: "length (snd (take_rx n xs)) \<le> length xs"
  by (induction n xs rule: take_rx.induct) (auto split: prod.splits)

lemma take_rx_shrinks: "fst (take_rx n xs) \<noteq> [] \<Longrightarrow> length (snd (take_rx n xs)) < length xs"
proof (induction n xs rule: take_rx.induct)
  case (4 n b xs)
  have "length (snd (take_rx n xs)) \<le> length xs" by (rule take_rx_length)
  then show ?case by (auto split: prod.splits)
qed simp_all

lemma take_until_length: "length (snd (take_until t xs)) \<le> length xs"
  by (induction t xs rule: take_until.induct) (auto split: prod.splits)

lemma rx_emit [simp]: "rx (emit e w) = rx w"
  by (simp add: emit_def)

lemma rx_print [simp]: "rx (print m w) = rx w"
  by (simp add: print_def)

lemma rx_print_if [simp]: "rx (print_if c m w) = rx w"
  by (simp add: print_if_def)

lemma rx_device_write [simp]: "rx (device_write bs w) = rx w"
  by (simp add: device_write_def)

lemma device_read_length: "length (rx (snd (device_read n w))) \<le> length (rx w)"
  using take_rx_length [of n "rx w"] by (auto simp: device_read_def split: prod.splits)

lemma device_read_shrinks:
  "fst (device_read n w) \<noteq> [] \<Longrightarrow> length (rx (snd (device_read n w))) < length (rx w)"
  using take_rx_shrinks [of n "rx w"] by (auto simp: device_read_def split: prod.splits)

lemma device_read_until_length: "length (rx (snd (device_read_until t w))) \<le> length (rx w)"
  using take_until_length [of t "rx w"] by (auto simp: device_read_until_def split: prod.splits)

lemma read_32le_length: "length (rx (snd (read_32le w))) \<le> length (rx w)"
  using device_read_length [of 4 w] by (auto simp: read_32le_def split: prod.splits)

lemma read_32le_shrinks:
  "read_32le w = (Inr v, w1) \<Longrightarrow> length (rx w1) < length (rx w)"
  using device_read_shrinks [of 4 w] by (fastforce simp: read_32le_def split: prod.splits if_splits)

text \<open>
  The loop of \<^verbatim>\<open>ACT_RETRIEVE_FS_LISTING\<close>: read a size and a NUL-terminated path,
  stop at the pair (\<^verbatim>\<open>0xFFFFFFFF\<close>, empty path), store any other pair.
\<close>

function retrieve_fs_listing_loop ::
    "(string \<times> nat) list \<Rightarrow> world \<Rightarrow> ((string \<times> nat) list) result" where
  "retrieve_fs_listing_loop fs_listing w =
     (case read_32le w of
        (Inl e, w1) \<Rightarrow> (Inl e, w1)
      | (Inr (sz, _), w1) \<Rightarrow>
          (case ascii_decode (butlast (fst (device_read_until 0 w1))) of
             Inl e \<Rightarrow> (Inl e, snd (device_read_until 0 w1))
           | Inr path \<Rightarrow>
               if sz = 0xFFFFFFFF \<and> length path = 0
               then (Inr fs_listing, snd (device_read_until 0 w1))
               else retrieve_fs_listing_loop (dict_set path sz fs_listing)
                      (snd (device_read_until 0 w1))))"
  by pat_completeness auto
termination
proof (relation "measure (\<lambda>(fs_listing, w). length (rx w))")
  show "wf (measure (\<lambda>(fs_listing, w). length (rx w)))" by simp
next
  fix fs_listing :: "(string \<times> nat) list" and w x1 w1 x2 sz y path
  assume "(x1, w1) = read_32le w" and "x1 = Inr x2" and "(sz, y) = x2"
  then have "read_32le w = (Inr (sz, y), w1)" by simp
  then have "length (rx w1) < length (rx w)" by (rule read_32le_shrinks)
  moreover have "length (rx (snd (device_read_until 0 w1))) \<le> length (rx w1)"
    by (rule device_read_until_length)
  ultimately show "((dict_set path sz fs_listing, snd (device_read_until 0 w1)), fs_listing, w)
      \<in> measure (\<lambda>(fs_listing, w). length (rx w))"
    by simp
qed

declare retrieve_fs_listing_loop.simps [simp del]

definition retrieve_fs_listing :: "config \<Rightarrow> world \<Rightarrow> ((string \<times> nat) list) result" where
  "retrieve_fs_listing cfg w =
     (case (if VERBOSE cfg then
              (case read_32le (device_write [0x49, 0x0A] (print DbgRetrievingInfo w)) of
                 (Inl e, w1) \<Rightarrow> (Inl e, w1)
               | (Inr (sz_total, _), w1) \<Rightarrow>
                   (case read_32le w1 of
                      (Inl e, w2) \<Rightarrow> (Inl e, w2)
                    | (Inr (sz_used, _), w2) \<Rightarrow> wait_ready (print (DbgStats sz_total sz_used) w2)))
            else (Inr (), w)) of
        (Inl e, w3) \<Rightarrow> (Inl e, w3)
      | (Inr _, w3) \<Rightarrow>
          (case retrieve_fs_listing_loop []
                  (device_write [0x4C, 0x0A] (print MsgRetrievingListing w3)) of
             (Inl e, w4) \<Rightarrow> (Inl e, w4)
           | (Inr fs_listing, w4) \<Rightarrow>
               (case wait_ready w4 of
                  (Inl e, w5) \<Rightarrow> (Inl e, w5)
                | (Inr _, w5) \<Rightarrow> (Inr fs_listing, w5))))"

section \<open>Dumping files from the device\<close>

text \<open>
  One iteration of the loop of \<^verbatim>\<open>ACT_DUMP_FS\<close>. The destination is opened for
  writing first; every \<^verbatim>\<open>continue\<close> is preceded by \<^verbatim>\<open>wait_ready()\<close>. Creating
  the directories and the file is the operating system's business: \<open>creatable\<close> says
  whether it succeeds, and a failure is an uncaught \<^verbatim>\<open>OSError\<close>.
\<close>

definition dump_file :: "config \<Rightarrow> (string \<times> nat) list \<Rightarrow> string \<Rightarrow> world \<Rightarrow> unit result" where
  "dump_file cfg fs_listing dev_path w =
     (let pc_path = path_join (FS_PATH cfg) (drop 1 dev_path);
          w0 = print (MsgDumpFile dev_path pc_path) w in
      if \<not> creatable cfg pc_path then (Inl OSError, w0)
      else
        (case ascii_encode (''R:'' @ dev_path @ [CHR 0x0A]) of
           Inl e \<Rightarrow> (Inl e, open_wb pc_path w0)
         | Inr cmd \<Rightarrow>
        (case read_32le (device_write cmd (open_wb pc_path w0)) of
           (Inl e, w2) \<Rightarrow> (Inl e, w2)
         | (Inr (sz, size_bytes), w2) \<Rightarrow>
             if sz = 0xFFFFFFFF then wait_ready (print (ErrNotExist dev_path) w2)
             else if sz = 0xFFFFFFFE \<or> sz = 0xFFFFFFFD
               then wait_ready (print (ErrCannotOpen dev_path) w2)
             else
               (case map_of fs_listing dev_path of
                  None \<Rightarrow> (Inl KeyError, w2)
                | Some listed \<Rightarrow>
               (case device_read sz (print_if (sz \<noteq> listed) (WrnSizeChanged listed sz) w2) of
                  (contents, w4) \<Rightarrow>
               (case device_read 1 w4 of
                  (ck, w5) \<Rightarrow>
                    if ck = [] then (Inl IndexError, w5)
                    else
                      (let checksum = hd ck;
                           w6 = print_if (VERBOSE cfg)
                                  (DbgRetrieved (length contents) sz checksum) w5 in
                       if length contents \<noteq> sz
                         then wait_ready (print (ErrIncomplete (length contents) sz) w6)
                       else if calculate_checksum [size_bytes, contents] \<noteq> uint checksum
                         then wait_ready (print ErrChecksum w6)
                       else wait_ready (file_write pc_path contents w6))))))))"

text \<open>
  \<^verbatim>\<open>for dev_path in fs_listing\<close>: the keys in insertion order, until an exit.
  \<open>dump_fs\<close> is the loop with the line printed before it.
\<close>

fun dump_loop :: "config \<Rightarrow> (string \<times> nat) list \<Rightarrow> string list \<Rightarrow> world \<Rightarrow> unit result" where
  "dump_loop cfg fs_listing [] w = (Inr (), w)"
| "dump_loop cfg fs_listing (dev_path # rest) w =
     (case dump_file cfg fs_listing dev_path w of
        (Inl e, w1) \<Rightarrow> (Inl e, w1)
      | (Inr _, w1) \<Rightarrow> dump_loop cfg fs_listing rest w1)"

definition dump_fs :: "config \<Rightarrow> (string \<times> nat) list \<Rightarrow> world \<Rightarrow> unit result" where
  "dump_fs cfg fs_listing w = dump_loop cfg fs_listing (map fst fs_listing) (print MsgDumping w)"

section \<open>Uploading the file system\<close>

text \<open>
  The inner \<^verbatim>\<open>while True\<close> of the upload: send one block (marker, length minus one,
  payload, checksum), read the status byte and the offset, and send the same block
  again on \<^verbatim>\<open>0x21\<close>. Every pass reads from the device, so on a finite script the loop
  ends; a device that rejects for ever is outside the model.
\<close>

function send_block :: "config \<Rightarrow> string \<Rightarrow> byte list \<Rightarrow> world \<Rightarrow> unit result" where
  "send_block cfg dev_path block w =
     (let block_sz = [of_nat (length block - 1)];
          checksum = calculate_checksum [[0x42], block_sz, block];
          w1 = device_write [word_of_int checksum]
                 (device_write block (device_write block_sz (device_write [0x42] w))) in
      if length (fst (device_read 1 w1)) = 0
        then (Inl (Exit 1), print ErrWriteTimeout (snd (device_read 1 w1)))
      else
        (case read_32le (snd (device_read 1 w1)) of
           (Inl e, w3) \<Rightarrow> (Inl e, w3)
         | (Inr (offset, _), w3) \<Rightarrow>
             if hd (fst (device_read 1 w1)) = 0x21
               then send_block cfg dev_path block (print ErrChecksumResend w3)
             else if hd (fst (device_read 1 w1)) = 0x58
               then (Inl (Exit 1), print (ErrUnableWrite dev_path offset) w3)
             else if hd (fst (device_read 1 w1)) \<noteq> 0x40
               then (Inl (Exit 1), print (ErrUnexpectedBlock (hd (fst (device_read 1 w1)))) w3)
             else (Inr (), print_if (VERBOSE cfg) (DbgWritten (length block) dev_path offset) w3)))"
  by pat_completeness auto
termination
proof (relation "measure (\<lambda>(cfg, dev_path, block, w). length (rx w))")
  show "wf (measure (\<lambda>(cfg, dev_path, block, w). length (rx w)))" by simp
next
  fix cfg :: config and dev_path :: string and block :: "byte list" and w :: world
    and block_sz checksum w1 x1 w3 x2 offset y
  assume w1: "w1 = device_write [word_of_int checksum]
                 (device_write block (device_write block_sz (device_write [0x42] w)))"
    and rd: "(x1, w3) = read_32le (snd (device_read 1 w1))"
  have "length (rx w3) \<le> length (rx (snd (device_read 1 w1)))"
    using read_32le_length [of "snd (device_read 1 w1)"] rd [symmetric] by simp
  also have "\<dots> \<le> length (rx w1)" by (rule device_read_length)
  also have "\<dots> = length (rx w)" by (simp add: w1)
  finally have le: "length (rx w3) \<le> length (rx w)" .
  assume "x1 = Inr x2"
  with rd have "read_32le (snd (device_read 1 w1)) = (Inr x2, w3)" by simp
  then have "length (rx w3) < length (rx (snd (device_read 1 w1)))" by (rule read_32le_shrinks)
  also have "\<dots> \<le> length (rx w1)" by (rule device_read_length)
  also have "\<dots> = length (rx w)" by (simp add: w1)
  finally show "((cfg, dev_path, block, print ErrChecksumResend w3), cfg, dev_path, block, w)
      \<in> measure (\<lambda>(cfg, dev_path, block, w). length (rx w))"
    by simp
qed

declare send_block.simps [simp del]

text \<open>
  The outer \<^verbatim>\<open>while True\<close>: \<^verbatim>\<open>f.read(256)\<close> takes the next 256 bytes of the file,
  fewer at its end, none after it.
\<close>

function send_blocks :: "config \<Rightarrow> string \<Rightarrow> byte list \<Rightarrow> world \<Rightarrow> unit result" where
  "send_blocks cfg dev_path f w =
     (if length (take 256 f) = 0 then (Inr (), print_if (VERBOSE cfg) DbgComplete w)
      else
        (case send_block cfg dev_path (take 256 f) w of
           (Inl e, w1) \<Rightarrow> (Inl e, w1)
         | (Inr _, w1) \<Rightarrow> send_blocks cfg dev_path (drop 256 f) w1))"
  by pat_completeness auto
termination
  by (relation "measure (\<lambda>(cfg, dev_path, f, w). length f)") auto

declare send_blocks.simps [simp del]

text \<open>
  One file of the walk: \<^verbatim>\<open>W:<path>\<close>, the answer of up to five bytes, the blocks,
  the end-of-file byte and the ready prompt. The file arrives as its PC path and its
  content.
\<close>

definition upload_file :: "config \<Rightarrow> string \<times> byte list \<Rightarrow> world \<Rightarrow> unit result" where
  "upload_file cfg file w =
     (let pc_path = fst file;
          dev_path = replace_backslash (removeprefix (FS_PATH cfg) pc_path);
          w0 = print (MsgUploadFile pc_path dev_path) w in
      case ascii_encode (''W:'' @ dev_path @ [CHR 0x0A]) of
        Inl e \<Rightarrow> (Inl e, w0)
      | Inr cmd \<Rightarrow>
          (case device_read 5 (device_write cmd w0) of
             (result, w2) \<Rightarrow>
               if length result = 0 then (Inl (Exit 1), print (ErrOpenTimeout dev_path) w2)
               else if hd result = 0x58 then (Inr (), print (ErrCannotCreate dev_path) w2)
               else if hd result \<noteq> 0x40
                 then (Inl (Exit 1), print (ErrUnexpectedOpen (hd result)) w2)
               else
                 (case send_blocks cfg dev_path (snd file) w2 of
                    (Inl e, w3) \<Rightarrow> (Inl e, w3)
                  | (Inr _, w3) \<Rightarrow>
                      wait_ready (device_write [0x46] (print_if (VERBOSE cfg) DbgTerminating w3)))))"

text \<open>The two nested \<^verbatim>\<open>for\<close> loops over \<^verbatim>\<open>os.walk(FS_PATH)\<close>, as one list of files.\<close>

fun upload_files :: "config \<Rightarrow> (string \<times> byte list) list \<Rightarrow> world \<Rightarrow> unit result" where
  "upload_files cfg [] w = (Inr (), w)"
| "upload_files cfg (file # rest) w =
     (case upload_file cfg file w of
        (Inl e, w1) \<Rightarrow> (Inl e, w1)
      | (Inr _, w1) \<Rightarrow> upload_files cfg rest w1)"

text \<open>
  The polling loops of the reformat request. How many reads fit before the deadline is
  decided by the clock; it is the parameter \<open>k\<close>. \<open>result\<close> keeps its old value when
  the loop body never runs.
\<close>

fun poll_read :: "nat \<Rightarrow> byte list \<Rightarrow> world \<Rightarrow> byte list \<times> world" where
  "poll_read 0 result w = (result, w)"
| "poll_read (Suc k) result w =
     (case device_read 1 w of
        (r, w1) \<Rightarrow> if length r \<noteq> 0 then (r, w1) else poll_read k r w1)"

text \<open>
  The first part of \<^verbatim>\<open>ACT_UPLOAD\<close>: wipe or reformat; the value is \<^verbatim>\<open>success\<close>.
  \<open>upload\<close> is the whole of \<^verbatim>\<open>ACT_UPLOAD\<close>: only after a success and a ready prompt
  does it walk the files.
\<close>

definition reformat :: "config \<Rightarrow> world \<Rightarrow> bool result" where
  "reformat cfg w =
     (if NO_REFORMAT cfg then
        (case device_read 1 (device_write [0x58, 0x3A, 0x2F, 0x0A] (print MsgRemovingAll w)) of
           (r, w2) \<Rightarrow>
             if r = [] then (Inl IndexError, w2)
             else if hd r = 0x58 then (Inr False, print ErrDeleteFailed w2)
             else if hd r \<noteq> 0x40 then (Inr False, print (ErrUnexpectedResult (hd r)) w2)
             else (Inr True, w2))
      else
        (case poll_read (req_polls cfg) []
                (device_write [0x5A, 0x0A] (print MsgConfirmReformat w)) of
           (result, w2) \<Rightarrow>
             if length result = 0 then (Inl (Exit 1), print ErrDecisionTimeout w2)
             else if hd result = 0x58 then (Inr False, print MsgDeclined w2)
             else if hd result \<noteq> 0x2E
               then (Inl (Exit 1), print (ErrUnexpectedDecision (hd result)) w2)
             else
               (case poll_read (fmt_polls cfg) result (print MsgReformatting w2) of
                  (result2, w4) \<Rightarrow>
                    if length result2 = 0 then (Inl (Exit 1), print ErrReformatTimeout w4)
                    else if hd result2 = 0x58 then (Inl (Exit 1), print ErrReformatFailed w4)
                    else if hd result2 \<noteq> 0x40
                      then (Inl (Exit 1), print (ErrUnexpectedReformat (hd result2)) w4)
                    else (Inr True, w4))))"

definition upload :: "config \<Rightarrow> (string \<times> byte list) list \<Rightarrow> world \<Rightarrow> unit result" where
  "upload cfg tree w =
     (case reformat cfg w of
        (Inl e, w1) \<Rightarrow> (Inl e, w1)
      | (Inr success, w1) \<Rightarrow>
          if \<not> success then (Inl (Exit 1), print MsgNotReformatted w1)
          else
            (case wait_ready w1 of
               (Inl e, w2) \<Rightarrow> (Inl e, w2)
             | (Inr _, w2) \<Rightarrow> upload_files cfg tree (print MsgUploading w2)))"

section \<open>Notions for stating the properties\<close>

text \<open>A session that starts with an empty trace and no files, for concrete runs.\<close>

definition start :: "byte option list \<Rightarrow> world" where
  "start script = \<lparr>rx = script, trace = [], files = Map.empty\<rparr>"

definition test_config :: config where
  "test_config = \<lparr>VERBOSE = False, NO_REFORMAT = False, FS_PATH = ''fs'',
     req_polls = 4, fmt_polls = 7, creatable = (\<lambda>_. True)\<rparr>"

text \<open>What was printed, in order.\<close>

definition printed :: "world \<Rightarrow> message list" where
  "printed w = [m. Print m \<leftarrow> trace w]"

text \<open>The device's side of the wire: a 32-bit size in little-endian order.\<close>

definition pack_le32 :: "nat \<Rightarrow> byte list" where
  "pack_le32 n = [of_nat n, of_nat (n div 256), of_nat (n div 65536), of_nat (n div 16777216)]"

text \<open>
  An entry as the device sends it: the size, the path, a NUL. A storable entry has an
  ASCII path without NUL, a 32-bit size, and is not the terminator pair.
\<close>

definition wire_entry :: "string \<times> nat \<Rightarrow> byte list" where
  "wire_entry e = pack_le32 (snd e) @ map (\<lambda>c. of_nat (of_char c)) (fst e) @ [0]"

definition storable :: "string \<times> nat \<Rightarrow> bool" where
  "storable e \<longleftrightarrow>
     list_all (\<lambda>c. (of_char c :: nat) < 128 \<and> c \<noteq> CHR 0x00) (fst e) \<and> snd e < 2 ^ 32
     \<and> \<not> (snd e = 0xFFFFFFFF \<and> fst e = [])"

text \<open>
  An entry as the loop reads it: the four bytes of one \<^verbatim>\<open>read_32le\<close> and the bytes one
  \<^verbatim>\<open>read_until\<close> returned, of which the code drops the last. Such an entry is recorded
  when its path decodes as ASCII and it is not the pair that ends the loop.
  \<open>listing_exit\<close> lists the ways out of the loop: normally, after a terminator, with
  every recorded entry stored in order; with \<^verbatim>\<open>exit(1)\<close> after a size read of fewer than
  four bytes; with \<^verbatim>\<open>UnicodeDecodeError\<close> on a path that is not ASCII.
\<close>

definition entry_events :: "byte list \<times> byte list \<Rightarrow> event list" where
  "entry_events e = [Rx 4 (fst e), RxUntil 0 (snd e)]"

definition ascii_path :: "byte list \<times> byte list \<Rightarrow> bool" where
  "ascii_path e \<longleftrightarrow> list_all (\<lambda>b. unat b < 128) (butlast (snd e))"

definition entry_path :: "byte list \<times> byte list \<Rightarrow> string" where
  "entry_path e = map (\<lambda>b. char_of (unat b)) (butlast (snd e))"

definition terminator :: "byte list \<times> byte list \<Rightarrow> bool" where
  "terminator e \<longleftrightarrow> unpack_le32 (fst e) = 0xFFFFFFFF \<and> butlast (snd e) = []"

definition recorded :: "byte list \<times> byte list \<Rightarrow> bool" where
  "recorded e \<longleftrightarrow> length (fst e) = 4 \<and> ascii_path e \<and> \<not> terminator e"

definition listing_exit ::
    "(string \<times> nat) list \<Rightarrow> (byte list \<times> byte list) list \<Rightarrow> event list
       \<Rightarrow> error + (string \<times> nat) list \<Rightarrow> bool" where
  "listing_exit fs es final res \<longleftrightarrow>
     (case res of
        Inr l \<Rightarrow>
          l = foldl (\<lambda>d e. dict_set (entry_path e) (unpack_le32 (fst e)) d) fs es
          \<and> (\<exists>t. final = entry_events t \<and> length (fst t) = 4 \<and> terminator t)
      | Inl err \<Rightarrow>
          (\<exists>d. final = [Rx 4 d, Print (ErrIncompleteRead (length d))] \<and> length d \<noteq> 4
               \<and> err = Exit 1)
          \<or> (\<exists>x. final = entry_events x \<and> length (fst x) = 4 \<and> \<not> ascii_path x
               \<and> err = UnicodeDecodeError))"

text \<open>
  The four writes of one pass of the inner loop: the marker \<open>0x42\<close>, the length minus
  one, the payload, the checksum over the three.
\<close>

definition frame_events :: "byte list \<Rightarrow> event list" where
  "frame_events block =
     [Tx [0x42], Tx [of_nat (length block - 1)], Tx block,
      Tx [word_of_int (calculate_checksum [[0x42], [of_nat (length block - 1)], block])]]"

text \<open>
  The blocks of a file in closed form: block \<open>i\<close> is the 256 bytes from offset
  \<open>256 * i\<close>, fewer at the end, and there are \<open>ceil(S / 256)\<close> of them. What one
  accepted block leaves in the trace, and what a device sends that accepts one block
  after the other, each with its four offset bytes.
\<close>

definition blocks_256 :: "byte list \<Rightarrow> byte list list" where
  "blocks_256 f = map (\<lambda>i. take 256 (drop (256 * i) f)) [0..<(length f + 255) div 256]"

definition accepted :: "config \<Rightarrow> string \<Rightarrow> byte list \<times> byte list \<Rightarrow> event list" where
  "accepted cfg dev x =
     frame_events (fst x) @ [Rx 1 [0x40], Rx 4 (snd x)]
       @ (if VERBOSE cfg then [Print (DbgWritten (length (fst x)) dev (unpack_le32 (snd x)))] else [])"

definition acks :: "byte list list \<Rightarrow> byte option list" where
  "acks offs = concat (map (\<lambda>off. Some 0x40 # map Some off) offs)"

text \<open>What was written to the device, one entry for each \<^verbatim>\<open>device.write\<close>.\<close>

definition transmitted :: "world \<Rightarrow> byte list list" where
  "transmitted w = [bs. Tx bs \<leftarrow> trace w]"

text \<open>The events that a step from \<open>w\<close> to \<open>w'\<close> added to the trace.\<close>

definition new_events :: "world \<Rightarrow> world \<Rightarrow> event list" where
  "new_events w w' = drop (length (trace w)) (trace w')"

text \<open>\<open>w'\<close> continues the trace of \<open>w\<close>.\<close>

definition grows :: "world \<Rightarrow> world \<Rightarrow> bool" where
  "grows w w' \<longleftrightarrow> (\<exists>evs. trace w' = trace w @ evs)"

text \<open>The events that \<open>wait_ready\<close> can add: its read and its two error prints.\<close>

definition prompt_event :: "event \<Rightarrow> bool" where
  "prompt_event e \<longleftrightarrow>
     (case e of Rx n bs \<Rightarrow> True | Print ErrReadyTimeout \<Rightarrow> True
      | Print (ErrReadyInvalid b) \<Rightarrow> True | _ \<Rightarrow> False)"

section \<open>Facts about the link\<close>

lemma take_rx_Nil: "take_rx n [] = ([], [])"
  by (cases n) simp_all

lemma take_rx_Cons:
  "take_rx n (x # xs) =
     (if n = 0 then ([], x # xs)
      else case x of None \<Rightarrow> ([], xs)
           | Some b \<Rightarrow> (case take_rx (n - 1) xs of (bs, r) \<Rightarrow> (b # bs, r)))"
  by (cases n; cases x) simp_all

lemmas run_simps = take_rx_Nil take_rx_Cons start_def read_32le_def device_read_def
  device_read_until_def emit_def print_def print_if_def device_write_def wait_ready_def
  unpack_le32_def ascii_decode_def ascii_encode_def char_of_def bit_iff_odd

lemma trace_device_read: "trace (snd (device_read n w)) = trace w @ [Rx n (fst (device_read n w))]"
  by (simp add: device_read_def emit_def split: prod.splits)

lemma take_rx_all: "take_rx (length bs) (map Some bs @ r) = (bs, r)"
  by (induction bs) simp_all

lemma length_pack_le32 [simp]: "length (pack_le32 n) = 4"
  by (simp add: pack_le32_def)

lemma unpack_pack:
  assumes "n < 2 ^ 32"
  shows "unpack_le32 (pack_le32 n) = n"
proof -
  define a where "a = n div 256"
  define b where "b = a div 256"
  define c where "c = b div 256"
  have b: "n div 65536 = b"
    using div_mult2_eq [of n 256 256] by (simp add: a_def b_def)
  have c: "n div 16777216 = c"
    using div_mult2_eq [of n 65536 256] by (simp add: b c_def)
  from assms have "c < 256" unfolding c [symmetric] by simp
  then have c4: "c mod 256 = c" by simp
  have "n = n mod 256 + 256 * a" by (simp add: a_def)
  moreover have "a = a mod 256 + 256 * b" by (simp add: b_def)
  moreover have "b = b mod 256 + 256 * c" by (simp add: c_def)
  ultimately have "n mod 256 + 256 * (a mod 256) + 65536 * (b mod 256) + 16777216 * c = n"
    by linarith
  then show ?thesis
    by (simp add: unpack_le32_def pack_le32_def unat_of_nat b c c4 flip: a_def)
qed

lemma read_32le_bytes:
  assumes "rx w = map Some bs @ r" "length bs = 4"
  shows "read_32le w = (Inr (unpack_le32 bs, bs), w\<lparr>rx := r, trace := trace w @ [Rx 4 bs]\<rparr>)"
proof -
  have "take_rx 4 (map Some bs @ r) = (bs, r)"
    using take_rx_all [of bs r] assms(2) by simp
  then show ?thesis using assms
    by (simp add: read_32le_def device_read_def emit_def)
qed

lemma take_until_path:
  "list_all (\<lambda>b. b \<noteq> t) bs \<Longrightarrow> take_until t (map Some (bs @ [t]) @ r) = (bs @ [t], r)"
  by (induction bs) simp_all

lemma byte_of_char_nonzero:
  assumes "(of_char c :: nat) < 128" "c \<noteq> CHR 0x00"
  shows "(of_nat (of_char c) :: byte) \<noteq> 0"
proof
  assume "(of_nat (of_char c) :: byte) = 0"
  then have "unat (of_nat (of_char c) :: byte) = 0" by simp
  with assms(1) have "(of_char c :: nat) = 0" by (simp add: unat_of_nat)
  then have "char_of (of_char c :: nat) = (char_of (0::nat) :: char)" by simp
  then have "c = char_of (0::nat)" by simp
  then have "c = CHR 0x00" by (simp add: char_of_def)
  with assms(2) show False by simp
qed

lemma ascii_decode_path:
  "list_all (\<lambda>c. (of_char c :: nat) < 128) p \<Longrightarrow>
     ascii_decode (map (\<lambda>c. of_nat (of_char c)) p) = Inr p"
  by (induction p) (auto simp: ascii_decode_def unat_of_nat split: if_splits)

section \<open>The checksum\<close>

lemma and_255: "(x::int) AND 0xFF = x mod 256"
proof -
  have "x AND mask 8 = x mod 2 ^ 8"
    by (simp only: flip: take_bit_eq_mask take_bit_eq_mod)
  then show ?thesis by (simp add: mask_eq_exp_minus_1)
qed

lemma sum_of_sums:
  "sum_list (map (\<lambda>array. sum_list (map uint array)) rs) = sum_list (map uint (concat rs))"
  by (induction rs) simp_all

text \<open>
  Claim C3. For any byte ranges, \<open>calculate_checksum\<close> is
  \<open>(0x100 - (sum mod 256)) mod 256\<close> of the sum of all their bytes; the sum plus the
  checksum is 0 modulo 256; the checksum of the ranges is the checksum of their
  concatenation; and the checksum is a byte value, so that sending it as one byte and
  comparing the byte read back with a recomputed checksum finds them equal.
\<close>

theorem calculate_checksum_cancels:
  "calculate_checksum rs = (0x100 - (sum_list (map uint (concat rs)) mod 256)) mod 256
   \<and> (sum_list (map uint (concat rs)) + calculate_checksum rs) mod 256 = 0
   \<and> calculate_checksum [concat rs] = calculate_checksum rs
   \<and> 0 \<le> calculate_checksum rs \<and> calculate_checksum rs < 256
   \<and> uint (word_of_int (calculate_checksum rs) :: byte) = calculate_checksum rs"
proof -
  let ?s = "sum_list (map uint (concat rs))"
  have eq: "calculate_checksum rs = (0x100 - (?s mod 256)) mod 256"
    by (simp add: calculate_checksum_def and_255 sum_of_sums)
  have c: "calculate_checksum [concat rs] = calculate_checksum rs"
    by (simp add: calculate_checksum_def sum_of_sums)
  have z: "(?s + calculate_checksum rs) mod 256 = 0"
    unfolding eq by (simp add: mod_simps)
  have r: "0 \<le> calculate_checksum rs \<and> calculate_checksum rs < 256"
    unfolding eq by simp
  then have u: "uint (word_of_int (calculate_checksum rs) :: byte) = calculate_checksum rs"
    by (simp add: uint_word_of_int)
  from eq c z r u show ?thesis by blast
qed

theorem calculate_checksum_cancels_witness:
  "calculate_checksum [[0x42], [0x01], [0x10, 0xFF]] = 0xAE
   \<and> (sum_list (map uint (concat [[0x42], [0x01], [0x10, 0xFF :: byte]])) + 0xAE) mod 256 = 0"
  using calculate_checksum_cancels [of "[[0x42], [0x01], [0x10, 0xFF]]"]
  by (simp add: calculate_checksum_def)

section \<open>The ready prompt\<close>

text \<open>
  Claim C7. \<open>wait_ready\<close> makes one read of one byte. When nothing arrives it prints
  the timeout error and exits with status 1; when a byte other than \<open>0x3E\<close> arrives
  it prints the invalid-response error and exits with status 1; only on \<open>0x3E\<close> does
  it return, having consumed that byte and printed nothing.
\<close>

theorem wait_ready_contract:
  "(rx w = [] \<or> (\<exists>r. rx w = None # r) \<longrightarrow>
      wait_ready w = (Inl (Exit 1),
        w\<lparr>rx := tl (rx w), trace := trace w @ [Rx 1 [], Print ErrReadyTimeout]\<rparr>))
   \<and> (\<forall>b r. rx w = Some b # r \<and> b \<noteq> 0x3E \<longrightarrow>
      wait_ready w = (Inl (Exit 1),
        w\<lparr>rx := r, trace := trace w @ [Rx 1 [b], Print (ErrReadyInvalid b)]\<rparr>))
   \<and> (\<forall>r. rx w = Some 0x3E # r \<longrightarrow>
      wait_ready w = (Inr (), w\<lparr>rx := r, trace := trace w @ [Rx 1 [0x3E]]\<rparr>))"
  by (cases "rx w") (auto simp: wait_ready_def device_read_def emit_def print_def)

theorem wait_ready_contract_witness:
  "wait_ready (start [None, Some 0x3E]) =
     (Inl (Exit 1), \<lparr>rx = [Some 0x3E], trace = [Rx 1 [], Print ErrReadyTimeout], files = Map.empty\<rparr>)
   \<and> wait_ready (start [Some 0x3F, Some 0x3E]) =
     (Inl (Exit 1), \<lparr>rx = [Some 0x3E], trace = [Rx 1 [0x3F], Print (ErrReadyInvalid 0x3F)],
        files = Map.empty\<rparr>)
   \<and> wait_ready (start [Some 0x3E, Some 0x3E]) =
     (Inr (), \<lparr>rx = [Some 0x3E], trace = [Rx 1 [0x3E]], files = Map.empty\<rparr>)"
  using wait_ready_contract [of "start [None, Some 0x3E]"]
    wait_ready_contract [of "start [Some 0x3F, Some 0x3E]"]
    wait_ready_contract [of "start [Some 0x3E, Some 0x3E]"]
  by (simp add: start_def)

section \<open>The listing loop\<close>

lemma listing_entry_step:
  assumes e: "list_all (\<lambda>c. (of_char c :: nat) < 128 \<and> c \<noteq> CHR 0x00) p" "n < 2 ^ 32"
    and rx: "rx w = map Some (wire_entry (p, n)) @ r"
  shows "retrieve_fs_listing_loop fs w =
     (if n = 0xFFFFFFFF \<and> p = []
      then (Inr fs, w\<lparr>rx := r, trace := trace w @ [Rx 4 (pack_le32 n),
              RxUntil 0 (map (\<lambda>c. of_nat (of_char c)) p @ [0])]\<rparr>)
      else retrieve_fs_listing_loop (dict_set p n fs)
             (w\<lparr>rx := r, trace := trace w @ [Rx 4 (pack_le32 n),
                RxUntil 0 (map (\<lambda>c. of_nat (of_char c)) p @ [0])]\<rparr>))"
proof -
  let ?pb = "map (\<lambda>c. of_nat (of_char c)) p :: byte list"
  let ?w1 = "w\<lparr>rx := map Some (?pb @ [0]) @ r, trace := trace w @ [Rx 4 (pack_le32 n)]\<rparr>"
  have rd: "read_32le w = (Inr (n, pack_le32 n), ?w1)"
    using read_32le_bytes [of w "pack_le32 n" "map Some (?pb @ [0]) @ r"] rx e(2)
    by (simp add: wire_entry_def unpack_pack)
  have nz: "list_all (\<lambda>b. b \<noteq> 0) ?pb"
    using e(1) by (induction p) (auto simp: byte_of_char_nonzero)
  have ru: "device_read_until 0 ?w1 = (?pb @ [0],
      w\<lparr>rx := r, trace := trace w @ [Rx 4 (pack_le32 n), RxUntil 0 (?pb @ [0])]\<rparr>)"
    using take_until_path [OF nz, of r] by (simp add: device_read_until_def emit_def)
  have asc: "list_all (\<lambda>c. (of_char c :: nat) < 128) p"
    using e(1) by (induction p) auto
  have dec: "ascii_decode (butlast (?pb @ [0])) = Inr p"
    using ascii_decode_path [OF asc] by (simp add: butlast_append)
  show ?thesis
    by (subst retrieve_fs_listing_loop.simps,
        simp only: rd ru dec prod.case sum.case fst_conv snd_conv) simp
qed

lemma printed_rx_events [simp]:
  "printed (w\<lparr>rx := r, trace := trace w @ [Rx n bs, RxUntil t cs]\<rparr>) = printed w"
  by (simp add: printed_def)

lemma listing_wire_run:
  assumes "list_all storable es"
    and "rx w = map Some (concat (map wire_entry es) @ wire_entry ([], 0xFFFFFFFF)) @ r"
  shows "fst (retrieve_fs_listing_loop fs w) = Inr (foldl (\<lambda>d e. dict_set (fst e) (snd e) d) fs es)
     \<and> rx (snd (retrieve_fs_listing_loop fs w)) = r
     \<and> printed (snd (retrieve_fs_listing_loop fs w)) = printed w"
  using assms
proof (induction es arbitrary: fs w)
  case Nil
  then have "rx w = map Some (wire_entry ([], 0xFFFFFFFF)) @ r" by simp
  from listing_entry_step [OF _ _ this, of fs] show ?case by simp
next
  case (Cons e es)
  obtain p n where e: "e = (p, n)" by (cases e)
  let ?rest = "map Some (concat (map wire_entry es) @ wire_entry ([], 0xFFFFFFFF)) @ r"
  let ?w = "w\<lparr>rx := ?rest, trace := trace w @ [Rx 4 (pack_le32 n),
                RxUntil 0 (map (\<lambda>c. of_nat (of_char c)) p @ [0])]\<rparr>"
  from Cons.prems(1) have "storable (p, n)" and es: "list_all storable es"
    by (simp_all add: e)
  then have st: "list_all (\<lambda>c. (of_char c :: nat) < 128 \<and> c \<noteq> CHR 0x00) p"
      "n < 2 ^ 32" "\<not> (n = 0xFFFFFFFF \<and> p = [])"
    by (simp_all add: storable_def)
  from Cons.prems(2) have "rx w = map Some (wire_entry (p, n)) @ ?rest" by (simp add: e)
  from listing_entry_step [OF st(1,2) this, of fs] st(3)
  have step: "retrieve_fs_listing_loop fs w = retrieve_fs_listing_loop (dict_set p n fs) ?w"
    by simp
  have "rx ?w = ?rest" by simp
  from Cons.IH [OF es this, of "dict_set p n fs"] show ?case
    by (simp add: step e)
qed

lemma butlast_Nil_iff: "butlast xs = [] \<longleftrightarrow> length xs \<le> Suc 0"
  by (cases xs) auto

lemma trace_device_read_until:
  "trace (snd (device_read_until t w)) = trace w @ [RxUntil t (fst (device_read_until t w))]"
  by (simp add: device_read_until_def emit_def split: prod.splits)

lemma listing_loop_exits:
  "\<exists>es final.
     list_all recorded es
     \<and> trace (snd (retrieve_fs_listing_loop fs w)) = trace w @ concat (map entry_events es) @ final
     \<and> listing_exit fs es final (fst (retrieve_fs_listing_loop fs w))"
proof (induction fs w rule: retrieve_fs_listing_loop.induct)
  case (1 fs w)
  obtain data w1 where dr: "device_read 4 w = (data, w1)" by (cases "device_read 4 w")
  have t1: "trace w1 = trace w @ [Rx 4 data]"
    using trace_device_read [of 4 w] dr by simp
  show ?case
  proof (cases "length data = 4")
    case False
    then have r: "read_32le w = (Inl (Exit 1), print (ErrIncompleteRead (length data)) w1)"
      by (simp add: read_32le_def dr)
    have res: "retrieve_fs_listing_loop fs w = (Inl (Exit 1), print (ErrIncompleteRead (length data)) w1)"
      by (subst retrieve_fs_listing_loop.simps) (simp only: r prod.case sum.case)
    have "list_all recorded []" by simp
    moreover have "trace (snd (retrieve_fs_listing_loop fs w)) =
        trace w @ concat (map entry_events []) @ [Rx 4 data, Print (ErrIncompleteRead (length data))]"
      by (simp add: res print_def emit_def t1)
    moreover have "listing_exit fs [] [Rx 4 data, Print (ErrIncompleteRead (length data))]
        (fst (retrieve_fs_listing_loop fs w))"
      using False by (simp add: res listing_exit_def)
    ultimately show ?thesis by blast
  next
    case True
    then have r: "read_32le w = (Inr (unpack_le32 data, data), w1)"
      by (simp add: read_32le_def dr)
    define raw where "raw = fst (device_read_until 0 w1)"
    define w2 where "w2 = snd (device_read_until 0 w1)"
    define x where "x = (data, raw)"
    have t2: "trace w2 = trace w @ entry_events x"
      unfolding w2_def trace_device_read_until t1 by (simp add: entry_events_def x_def raw_def)
    have dec: "ascii_decode (butlast raw) =
        (if ascii_path x then Inr (entry_path x) else Inl UnicodeDecodeError)"
      by (simp add: ascii_decode_def ascii_path_def entry_path_def x_def)
    have body: "retrieve_fs_listing_loop fs w =
        (if \<not> ascii_path x then (Inl UnicodeDecodeError, w2)
         else if terminator x then (Inr fs, w2)
         else retrieve_fs_listing_loop (dict_set (entry_path x) (unpack_le32 data) fs) w2)"
      by (subst retrieve_fs_listing_loop.simps)
         (simp add: r dec terminator_def x_def entry_path_def butlast_Nil_iff flip: raw_def w2_def)
    consider (bad) "\<not> ascii_path x" | (fin) "ascii_path x" "terminator x"
      | (rec) "ascii_path x" "\<not> terminator x" by blast
    then show ?thesis
    proof cases
      case bad
      have "list_all recorded []" by simp
      moreover have "trace (snd (retrieve_fs_listing_loop fs w)) =
          trace w @ concat (map entry_events []) @ entry_events x"
        using bad by (simp add: body t2)
      moreover have "listing_exit fs [] (entry_events x) (fst (retrieve_fs_listing_loop fs w))"
        using bad True by (auto simp: body listing_exit_def x_def)
      ultimately show ?thesis by blast
    next
      case fin
      have "list_all recorded []" by simp
      moreover have "trace (snd (retrieve_fs_listing_loop fs w)) =
          trace w @ concat (map entry_events []) @ entry_events x"
        using fin by (simp add: body t2)
      moreover have "listing_exit fs [] (entry_events x) (fst (retrieve_fs_listing_loop fs w))"
        using fin True by (auto simp: body listing_exit_def x_def)
      ultimately show ?thesis by blast
    next
      case rec
      let ?fs = "dict_set (entry_path x) (unpack_le32 data) fs"
      have step: "retrieve_fs_listing_loop fs w = retrieve_fs_listing_loop ?fs w2"
        using rec by (simp add: body)
      have path: "ascii_decode (butlast (fst (device_read_until 0 w1))) = Inr (entry_path x)"
        using dec rec(1) by (simp add: raw_def)
      have nt: "\<not> (unpack_le32 data = 0xFFFFFFFF \<and> length (entry_path x) = 0)"
        using rec(2) by (simp add: terminator_def x_def entry_path_def butlast_Nil_iff)
      from "1.IH" [OF r [symmetric] refl refl path nt]
      obtain es final where
        es: "list_all recorded es"
        and tr: "trace (snd (retrieve_fs_listing_loop ?fs w2)) =
                  trace w2 @ concat (map entry_events es) @ final"
        and ex: "listing_exit ?fs es final (fst (retrieve_fs_listing_loop ?fs w2))"
        unfolding w2_def by blast
      have "list_all recorded (x # es)"
        using es rec True by (simp add: recorded_def x_def)
      moreover have "trace (snd (retrieve_fs_listing_loop fs w)) =
          trace w @ concat (map entry_events (x # es)) @ final"
        by (simp add: step tr t2)
      moreover have "listing_exit fs (x # es) final (fst (retrieve_fs_listing_loop fs w))"
        using ex by (simp add: step listing_exit_def x_def split: sum.splits)
      ultimately show ?thesis by blast
    qed
  qed
qed

text \<open>
  Claim C2, as the code has it. On a stream of entries that arrive in full, each with
  four size bytes, a 7-bit ASCII path and its NUL, the listing loop ends without an
  error at the first entry that is the pair (size \<open>0xFFFFFFFF\<close>, empty path) and reads no
  further. Every entry before it is stored in the listing under its path, in the order
  received, and the loop goes on: also an entry with an empty path and another size,
  and an entry with the size \<open>0xFFFFFFFF\<close> and a non-empty path. Nothing is printed for
  them. And on any stream whatever, the loop returns normally only after reading the
  size \<open>0xFFFFFFFF\<close> with an empty path, having stored every entry read before; its only
  other ways out are \<^verbatim>\<open>exit(1)\<close> after an incomplete size read and an uncaught
  \<^verbatim>\<open>UnicodeDecodeError\<close> on a path that is not ASCII, never a report that an
  entry violates the protocol.
\<close>

theorem listing_stores_every_other_entry:
  "(\<forall>es r. list_all storable es
        \<and> rx w = map Some (concat (map wire_entry es) @ wire_entry ([], 0xFFFFFFFF)) @ r \<longrightarrow>
      fst (retrieve_fs_listing_loop fs w) = Inr (foldl (\<lambda>d e. dict_set (fst e) (snd e) d) fs es)
      \<and> rx (snd (retrieve_fs_listing_loop fs w)) = r
      \<and> printed (snd (retrieve_fs_listing_loop fs w)) = printed w)
   \<and> (\<exists>es final.
        list_all recorded es
        \<and> trace (snd (retrieve_fs_listing_loop fs w)) = trace w @ concat (map entry_events es) @ final
        \<and> listing_exit fs es final (fst (retrieve_fs_listing_loop fs w)))"
proof (intro conjI allI impI)
  fix es r
  assume a: "list_all storable es
        \<and> rx w = map Some (concat (map wire_entry es) @ wire_entry ([], 0xFFFFFFFF)) @ r"
  then have st: "list_all storable es"
    and rx: "rx w = map Some (concat (map wire_entry es) @ wire_entry ([], 0xFFFFFFFF)) @ r"
    by simp_all
  from listing_wire_run [OF st rx, of fs]
  show "fst (retrieve_fs_listing_loop fs w) = Inr (foldl (\<lambda>d e. dict_set (fst e) (snd e) d) fs es)"
    and "rx (snd (retrieve_fs_listing_loop fs w)) = r"
    and "printed (snd (retrieve_fs_listing_loop fs w)) = printed w"
    by simp_all
next
  show "\<exists>es final.
        list_all recorded es
        \<and> trace (snd (retrieve_fs_listing_loop fs w)) = trace w @ concat (map entry_events es) @ final
        \<and> listing_exit fs es final (fst (retrieve_fs_listing_loop fs w))"
    by (rule listing_loop_exits)
qed

theorem listing_stores_every_other_entry_witness:
  "list_all storable [(''/b'', 7), ([], 3), (''/b'', 0xFFFFFFFF)]
   \<and> fst (retrieve_fs_listing_loop []
        (start (map Some (concat (map wire_entry [(''/b'', 7), ([], 3), (''/b'', 0xFFFFFFFF)])
           @ wire_entry ([], 0xFFFFFFFF)) @ [Some 0x3E]))) =
      Inr [(''/b'', 0xFFFFFFFF), ([], 3)]
   \<and> rx (snd (retrieve_fs_listing_loop []
        (start (map Some (concat (map wire_entry [(''/b'', 7), ([], 3), (''/b'', 0xFFFFFFFF)])
           @ wire_entry ([], 0xFFFFFFFF)) @ [Some 0x3E])))) = [Some 0x3E]"
proof -
  have st: "list_all storable [(''/b'', 7), ([], 3), (''/b'', 0xFFFFFFFF)]"
    by (simp add: storable_def)
  have rx: "rx (start (map Some (concat (map wire_entry [(''/b'', 7), ([], 3), (''/b'', 0xFFFFFFFF)])
           @ wire_entry ([], 0xFFFFFFFF)) @ [Some 0x3E])) =
      map Some (concat (map wire_entry [(''/b'', 7), ([], 3), (''/b'', 0xFFFFFFFF)])
           @ wire_entry ([], 0xFFFFFFFF)) @ [Some 0x3E]"
    by (simp add: start_def)
  from listing_stores_every_other_entry [THEN conjunct1, THEN spec, THEN spec, THEN mp,
      OF conjI [OF st rx], of "[]"] st
  show ?thesis by simp
qed

text \<open>
  Against claim C2 as stated: the device sends an entry with an empty path and size 0,
  then an entry with size \<open>0xFFFFFFFF\<close> and the path \<open>/a\<close>, then the terminator. Both
  entries are stored, nothing is printed, and the loop returns normally.
\<close>

theorem listing_no_protocol_violation_counterexample:
  "retrieve_fs_listing_loop []
       (start (map Some ([0, 0, 0, 0, 0] @ [0xFF, 0xFF, 0xFF, 0xFF, 0x2F, 0x61, 0]
          @ [0xFF, 0xFF, 0xFF, 0xFF, 0]))) =
     (Inr [([], 0), (''/a'', 0xFFFFFFFF)],
      \<lparr>rx = [], trace = [Rx 4 [0, 0, 0, 0], RxUntil 0 [0], Rx 4 [0xFF, 0xFF, 0xFF, 0xFF],
         RxUntil 0 [0x2F, 0x61, 0], Rx 4 [0xFF, 0xFF, 0xFF, 0xFF], RxUntil 0 [0]],
       files = Map.empty\<rparr>)"
  by (simp add: retrieve_fs_listing_loop.simps run_simps)

text \<open>
  Two streams outside the entries that arrive in full. A path with the byte \<open>0xE9\<close> is
  not stored: decoding it raises. A sentinel size followed by one byte and a read
  timeout ends the loop normally, because the code drops the last byte that
  \<^verbatim>\<open>read_until\<close> returned, whatever it is.
\<close>

lemma listing_edge_runs:
  "fst (retrieve_fs_listing_loop []
       (start (map Some ([1, 0, 0, 0, 0x2F, 0xE9, 0] @ [0xFF, 0xFF, 0xFF, 0xFF, 0])))) =
     Inl UnicodeDecodeError"
  "fst (retrieve_fs_listing_loop []
       (start (map Some [0xFF, 0xFF, 0xFF, 0xFF, 0x61] @ [None]))) = Inr []"
  by (simp_all add: retrieve_fs_listing_loop.simps run_simps)

section \<open>Sending blocks\<close>

lemma send_block_ack:
  assumes rx: "rx w = Some st # map Some offs @ r" and len: "length offs = 4"
  shows "send_block cfg dev block w =
    (if st = 0x21
       then send_block cfg dev block
              (w\<lparr>rx := r, trace := trace w @ frame_events block
                 @ [Rx 1 [st], Rx 4 offs, Print ErrChecksumResend]\<rparr>)
     else if st = 0x58
       then (Inl (Exit 1), w\<lparr>rx := r, trace := trace w @ frame_events block
                 @ [Rx 1 [st], Rx 4 offs, Print (ErrUnableWrite dev (unpack_le32 offs))]\<rparr>)
     else if st \<noteq> 0x40
       then (Inl (Exit 1), w\<lparr>rx := r, trace := trace w @ frame_events block
                 @ [Rx 1 [st], Rx 4 offs, Print (ErrUnexpectedBlock st)]\<rparr>)
     else (Inr (), w\<lparr>rx := r, trace := trace w @ frame_events block @ [Rx 1 [st], Rx 4 offs]
                 @ (if VERBOSE cfg then [Print (DbgWritten (length block) dev (unpack_le32 offs))]
                    else [])\<rparr>))"
proof -
  let ?w1 = "device_write [word_of_int (calculate_checksum [[0x42], [of_nat (length block - 1)], block])]
                 (device_write block (device_write [of_nat (length block - 1)] (device_write [0x42] w)))"
  let ?w2 = "w\<lparr>rx := map Some offs @ r, trace := trace w @ frame_events block @ [Rx 1 [st]]\<rparr>"
  have r1: "device_read 1 ?w1 = ([st], ?w2)"
    using rx by (simp add: device_read_def device_write_def emit_def frame_events_def)
  have r2: "read_32le ?w2 = (Inr (unpack_le32 offs, offs),
      w\<lparr>rx := r, trace := trace w @ frame_events block @ [Rx 1 [st], Rx 4 offs]\<rparr>)"
    using read_32le_bytes [of ?w2 offs r] len by simp
  show ?thesis
    by (subst send_block.simps, simp only: Let_def r1 r2 prod.case sum.case fst_conv snd_conv)
       (simp add: print_def print_if_def emit_def)
qed

lemma ceil_256_Suc:
  assumes "0 < (S::nat)"
  shows "(S + 255) div 256 = Suc ((S - 256 + 255) div 256)"
proof -
  from assms have "S + 255 = (S - 1) + 256" by simp
  then have lhs: "(S + 255) div 256 = Suc ((S - 1) div 256)" by simp
  show ?thesis
  proof (cases "S < 256")
    case True
    then show ?thesis unfolding lhs by simp
  next
    case False
    then have "S - 256 + 255 = S - 1" by simp
    then show ?thesis unfolding lhs by simp
  qed
qed

lemma last_len_full:
  assumes pos: "0 < (S::nat)" and m: "S mod 256 = 0"
  shows "min (S - 256 * ((S + 255) div 256 - 1)) 256 = 256"
proof -
  define q where "q = S div 256"
  have S: "S = 256 * q" using m by (simp add: q_def mod_0_imp_dvd)
  with pos have q: "0 < q" by simp
  have "(S + 255) div 256 = q" unfolding S by simp
  then show ?thesis using q unfolding S by (simp add: algebra_simps)
qed

lemma last_len_part:
  assumes m: "(S::nat) mod 256 \<noteq> 0"
  shows "min (S - 256 * ((S + 255) div 256 - 1)) 256 = S mod 256"
proof -
  define q where "q = S div 256"
  define r where "r = S mod 256"
  have S: "S = 256 * q + r" by (simp add: q_def r_def)
  have r: "0 < r" "r < 256" using m by (simp_all add: r_def)
  have "(S + 255) div 256 = q + 1" using r unfolding S by simp
  then show ?thesis using r unfolding S r_def [symmetric] by simp
qed

lemma blocks_256_Nil [simp]: "blocks_256 [] = []"
  by (simp add: blocks_256_def)

lemma blocks_256_Cons:
  assumes "f \<noteq> []"
  shows "blocks_256 f = take 256 f # blocks_256 (drop 256 f)"
proof -
  from assms have "0 < length f" by simp
  then have n: "(length f + 255) div 256 = Suc ((length f - 256 + 255) div 256)"
    by (rule ceil_256_Suc)
  have "map (\<lambda>i. take 256 (drop (256 * i) f)) [0..<Suc ((length f - 256 + 255) div 256)]
      = take 256 f # map (\<lambda>i. take 256 (drop (256 * Suc i) f)) [0..<(length f - 256 + 255) div 256]"
    by (simp only: upt_conv_Cons zero_less_Suc list.map map_Suc_upt [symmetric] map_map comp_def)
      simp
  also have "map (\<lambda>i. take 256 (drop (256 * Suc i) f)) [0..<(length f - 256 + 255) div 256]
      = blocks_256 (drop 256 f)"
    by (simp add: blocks_256_def add.commute)
  finally show ?thesis by (simp add: blocks_256_def n)
qed

lemma length_blocks_256: "length (blocks_256 f) = (length f + 255) div 256"
  by (simp add: blocks_256_def)

lemma concat_blocks_256: "concat (blocks_256 f) = f"
proof (induction "length f" arbitrary: f rule: less_induct)
  case less
  show ?case
  proof (cases "f = []")
    case True
    then show ?thesis by simp
  next
    case False
    then have "length (drop 256 f) < length f" by simp
    then have "concat (blocks_256 (drop 256 f)) = drop 256 f" by (rule less)
    with False show ?thesis by (simp add: blocks_256_Cons)
  qed
qed

lemma last_block_length:
  assumes "f \<noteq> []"
  shows "length (last (blocks_256 f)) = (if length f mod 256 = 0 then 256 else length f mod 256)"
proof -
  let ?n = "(length f + 255) div 256"
  from assms have lpos: "0 < length f" by simp
  then have pos: "0 < ?n" using ceil_256_Suc [of "length f"] by simp
  then have "[0..<?n] \<noteq> []" by simp
  then have "last (blocks_256 f) = take 256 (drop (256 * (?n - 1)) f)"
    using pos by (simp add: blocks_256_def last_map)
  then have "length (last (blocks_256 f)) = min (length f - 256 * (?n - 1)) 256"
    by simp
  also have "\<dots> = (if length f mod 256 = 0 then 256 else length f mod 256)"
    using lpos last_len_full [of "length f"] last_len_part [of "length f"] by simp
  finally show ?thesis .
qed

lemma send_blocks_accepted:
  assumes "list_all (\<lambda>off. length off = 4) offs"
    and "length offs \<le> length (blocks_256 f)"
    and "rx w = acks offs @ r"
  shows "send_blocks cfg dev f w =
     send_blocks cfg dev (drop (256 * length offs) f)
       (w\<lparr>rx := r, trace := trace w @ concat (map (accepted cfg dev) (zip (blocks_256 f) offs))\<rparr>)"
  using assms
proof (induction offs arbitrary: f w)
  case Nil
  then have "w\<lparr>rx := r, trace := trace w\<rparr> = w" by (simp add: acks_def)
  then show ?case by simp
next
  case (Cons off offs)
  from Cons.prems(2) have ne: "f \<noteq> []" by (auto simp: length_blocks_256)
  then have blk: "length (take 256 f) \<noteq> 0" by (simp add: min_def)
  let ?w1 = "w\<lparr>rx := acks offs @ r, trace := trace w @ accepted cfg dev (take 256 f, off)\<rparr>"
  from Cons.prems(1) have len: "length off = 4" and rest: "list_all (\<lambda>off. length off = 4) offs"
    by simp_all
  from Cons.prems(3) have "rx w = Some 0x40 # map Some off @ acks offs @ r"
    by (simp add: acks_def)
  from send_block_ack [OF this len, of cfg dev "take 256 f"]
  have sb: "send_block cfg dev (take 256 f) w = (Inr (), ?w1)"
    by (simp add: accepted_def)
  have step: "send_blocks cfg dev f w = send_blocks cfg dev (drop 256 f) ?w1"
    by (subst send_blocks.simps) (simp only: blk if_False sb prod.case sum.case)
  from Cons.prems(2) ne have le: "length offs \<le> length (blocks_256 (drop 256 f))"
    by (simp add: blocks_256_Cons)
  have "rx ?w1 = acks offs @ r" by simp
  from Cons.IH [OF rest le this] show ?case
    using ne by (simp add: step blocks_256_Cons add.commute [of 256])
qed

text \<open>
  Claim C4. When the device accepts every block of a file of size \<open>S\<close>, the block
  loop returns normally and what it sent and received is exactly one accepted exchange
  for each block of \<open>blocks_256\<close>, in order. These blocks make up the file; there are
  \<open>ceil(S / 256)\<close> of them, none when \<open>S = 0\<close>; and the last one has \<open>S mod 256\<close> bytes,
  or 256 when \<open>S\<close> is a non-zero multiple of 256.
\<close>

theorem upload_sends_ceil_blocks:
  assumes "list_all (\<lambda>off. length off = 4) offs"
    and "length offs = (length f + 255) div 256"
    and "rx w = acks offs @ r"
  shows "send_blocks cfg dev f w =
       (Inr (), w\<lparr>rx := r, trace := trace w
          @ concat (map (accepted cfg dev) (zip (blocks_256 f) offs))
          @ (if VERBOSE cfg then [Print DbgComplete] else [])\<rparr>)
     \<and> concat (blocks_256 f) = f
     \<and> length (blocks_256 f) = (length f + 255) div 256
     \<and> (length f = 0 \<longrightarrow> blocks_256 f = [])
     \<and> (length f \<noteq> 0 \<longrightarrow> length (last (blocks_256 f)) =
          (if length f mod 256 = 0 then 256 else length f mod 256))"
proof -
  from assms(2) have le: "length offs \<le> length (blocks_256 f)"
    by (simp add: length_blocks_256)
  have "length f \<le> 256 * length offs" unfolding assms(2) by arith
  then have fin: "drop (256 * length offs) f = []" by simp
  have "send_blocks cfg dev f w =
       (Inr (), w\<lparr>rx := r, trace := trace w
          @ concat (map (accepted cfg dev) (zip (blocks_256 f) offs))
          @ (if VERBOSE cfg then [Print DbgComplete] else [])\<rparr>)"
    unfolding send_blocks_accepted [OF assms(1) le assms(3)] fin
    by (subst send_blocks.simps) (simp add: print_if_def print_def emit_def)
  then show ?thesis
    using last_block_length [of f] by (simp add: concat_blocks_256 length_blocks_256)
qed

theorem upload_sends_ceil_blocks_witness:
  "send_blocks test_config ''/a'' [0x10, 0xFF] (start (acks [[2, 0, 0, 0]] @ [Some 0x3E])) =
     (Inr (), \<lparr>rx = [Some 0x3E],
        trace = [Tx [0x42], Tx [0x01], Tx [0x10, 0xFF], Tx [0xAE], Rx 1 [0x40], Rx 4 [2, 0, 0, 0]],
        files = Map.empty\<rparr>)
   \<and> length (blocks_256 [0x10, 0xFF]) = 1 \<and> length (last (blocks_256 [0x10, 0xFF])) = 2
   \<and> send_blocks test_config ''/a'' [] (start (acks [] @ [Some 0x3E])) =
     (Inr (), \<lparr>rx = [Some 0x3E], trace = [], files = Map.empty\<rparr>)"
  using upload_sends_ceil_blocks [of "[[2, 0, 0, 0]]" "[0x10, 0xFF]"
      "start (acks [[2, 0, 0, 0]] @ [Some 0x3E])" "[Some 0x3E]" test_config "''/a''"]
    upload_sends_ceil_blocks [of "[]" "[]" "start (acks [] @ [Some 0x3E])" "[Some 0x3E]"
      test_config "''/a''"]
  by (simp add: acks_def start_def test_config_def accepted_def frame_events_def blocks_256_def
      calculate_checksum_def)

lemma trace_read_32le: "\<exists>evs. trace (snd (read_32le w)) = trace w @ evs"
  by (auto simp: read_32le_def device_read_def emit_def print_def split: prod.splits)

lemma trace_frame_writes:
  "trace (device_write [word_of_int (calculate_checksum [[0x42], [of_nat (length block - 1)], block])]
       (device_write block (device_write [of_nat (length block - 1)] (device_write [0x42] w))))
     = trace w @ frame_events block"
  by (simp add: device_write_def emit_def frame_events_def)

lemma send_block_starts_with_frame:
  "\<exists>evs. trace (snd (send_block cfg dev block w)) = trace w @ frame_events block @ evs"
proof (induction cfg dev block w rule: send_block.induct)
  case (1 cfg dev block w)
  define w1 where "w1 = device_write [word_of_int (calculate_checksum [[0x42], [of_nat (length block - 1)], block])]
                 (device_write block (device_write [of_nat (length block - 1)] (device_write [0x42] w)))"
  define st where "st = fst (device_read 1 w1)"
  define w2 where "w2 = snd (device_read 1 w1)"
  have eq: "send_block cfg dev block w =
     (if length st = 0 then (Inl (Exit 1), print ErrWriteTimeout w2)
      else
        (case read_32le w2 of
           (Inl e, w3) \<Rightarrow> (Inl e, w3)
         | (Inr (offset, _), w3) \<Rightarrow>
             if hd st = 0x21 then send_block cfg dev block (print ErrChecksumResend w3)
             else if hd st = 0x58
               then (Inl (Exit 1), print (ErrUnableWrite dev offset) w3)
             else if hd st \<noteq> 0x40
               then (Inl (Exit 1), print (ErrUnexpectedBlock (hd st)) w3)
             else (Inr (), print_if (VERBOSE cfg) (DbgWritten (length block) dev offset) w3)))"
    by (subst send_block.simps) (simp only: Let_def w1_def w2_def st_def)
  have t1: "trace w1 = trace w @ frame_events block"
    unfolding w1_def by (rule trace_frame_writes)
  have t2: "trace w2 = trace w @ frame_events block @ [Rx 1 st]"
    unfolding w2_def st_def trace_device_read t1 by simp
  obtain res w3 where rd: "read_32le w2 = (res, w3)" by (cases "read_32le w2")
  from trace_read_32le [of w2] rd obtain evs3 where
    t3: "trace w3 = trace w @ frame_events block @ [Rx 1 st] @ evs3"
    by (auto simp: t2)
  show ?case
  proof (cases "length st = 0")
    case True
    then show ?thesis
      by (simp add: eq print_def emit_def t2)
  next
    case False
    show ?thesis
    proof (cases res)
      case (Inl e)
      with False rd t3 show ?thesis
        by (simp add: eq)
    next
      case (Inr v)
      obtain offset y where v: "v = (offset, y)" by (cases v)
      show ?thesis
      proof (cases "hd st = 0x21")
        case True
        have "\<exists>evs. trace (snd (send_block cfg dev block (print ErrChecksumResend w3)))
            = trace (print ErrChecksumResend w3) @ frame_events block @ evs"
          using False rd Inr v True
          by (intro "1.IH" [OF refl refl w1_def, of _ w3 v offset y])
             (simp_all add: st_def w2_def)
        then obtain evs where "trace (snd (send_block cfg dev block (print ErrChecksumResend w3)))
            = trace (print ErrChecksumResend w3) @ frame_events block @ evs"
          by blast
        with False rd Inr v True t3 show ?thesis
          by (simp add: eq print_def emit_def)
      next
        case nrej: False
        with False rd Inr v t3 show ?thesis
          by (simp add: eq print_def print_if_def emit_def)
      qed
    qed
  qed
qed

text \<open>
  Claim C5. When the acknowledgment of a block carries \<open>0x21\<close>, the next four writes are
  the same frame again: the same marker, length byte, payload and checksum, whatever the
  device answers afterwards. With one rejection followed by an acceptance, the block
  loop has sent the frame of the first 256 bytes twice and goes on with the file from
  byte 256: no file data was consumed by the rejection.
\<close>

theorem rejected_block_is_resent:
  assumes "length off1 = 4"
  shows "(rx w = Some 0x21 # map Some off1 @ r \<longrightarrow>
           (\<exists>evs. trace (snd (send_block cfg dev block w)) =
              trace w @ frame_events block @ [Rx 1 [0x21], Rx 4 off1, Print ErrChecksumResend]
                @ frame_events block @ evs))
       \<and> (\<forall>off2. f \<noteq> [] \<and> length off2 = 4
              \<and> rx w = Some 0x21 # map Some off1 @ Some 0x40 # map Some off2 @ r \<longrightarrow>
            send_blocks cfg dev f w =
              send_blocks cfg dev (drop 256 f)
                (w\<lparr>rx := r, trace := trace w @ frame_events (take 256 f)
                   @ [Rx 1 [0x21], Rx 4 off1, Print ErrChecksumResend]
                   @ accepted cfg dev (take 256 f, off2)\<rparr>))"
proof (intro conjI impI allI)
  assume rx: "rx w = Some 0x21 # map Some off1 @ r"
  let ?w = "w\<lparr>rx := r, trace := trace w @ frame_events block
                 @ [Rx 1 [0x21], Rx 4 off1, Print ErrChecksumResend]\<rparr>"
  from send_block_ack [OF rx assms, of cfg dev block]
  have "send_block cfg dev block w = send_block cfg dev block ?w" by simp
  moreover from send_block_starts_with_frame [of cfg dev block ?w]
  obtain evs where "trace (snd (send_block cfg dev block ?w)) = trace ?w @ frame_events block @ evs"
    by blast
  ultimately show "\<exists>evs. trace (snd (send_block cfg dev block w)) =
              trace w @ frame_events block @ [Rx 1 [0x21], Rx 4 off1, Print ErrChecksumResend]
                @ frame_events block @ evs"
    by simp
next
  fix off2
  assume a: "f \<noteq> [] \<and> length off2 = 4
              \<and> rx w = Some 0x21 # map Some off1 @ Some 0x40 # map Some off2 @ r"
  let ?b = "take 256 f"
  let ?w = "w\<lparr>rx := Some 0x40 # map Some off2 @ r, trace := trace w @ frame_events ?b
                 @ [Rx 1 [0x21], Rx 4 off1, Print ErrChecksumResend]\<rparr>"
  from a have blk: "length ?b \<noteq> 0" by (simp add: min_def)
  from a have rx: "rx w = Some 0x21 # map Some off1 @ (Some 0x40 # map Some off2 @ r)" by simp
  from send_block_ack [OF rx assms, of cfg dev ?b]
  have s1: "send_block cfg dev ?b w = send_block cfg dev ?b ?w" by simp
  have "rx ?w = Some 0x40 # map Some off2 @ r" by simp
  from send_block_ack [OF this, of cfg dev ?b] a
  have s2: "send_block cfg dev ?b ?w = (Inr (), w\<lparr>rx := r, trace := trace w @ frame_events ?b
                   @ [Rx 1 [0x21], Rx 4 off1, Print ErrChecksumResend]
                   @ accepted cfg dev (?b, off2)\<rparr>)"
    by (simp add: accepted_def)
  show "send_blocks cfg dev f w =
              send_blocks cfg dev (drop 256 f)
                (w\<lparr>rx := r, trace := trace w @ frame_events ?b
                   @ [Rx 1 [0x21], Rx 4 off1, Print ErrChecksumResend]
                   @ accepted cfg dev (?b, off2)\<rparr>)"
    by (subst send_blocks.simps) (simp only: blk if_False s1 s2 prod.case sum.case)
qed

theorem rejected_block_is_resent_witness:
  "send_blocks test_config ''/a'' [0x10, 0xFF]
       (start (Some 0x21 # map Some [0, 0, 0, 0] @ Some 0x40 # map Some [2, 0, 0, 0] @ [Some 0x3E])) =
     (Inr (), \<lparr>rx = [Some 0x3E],
        trace = [Tx [0x42], Tx [0x01], Tx [0x10, 0xFF], Tx [0xAE],
                 Rx 1 [0x21], Rx 4 [0, 0, 0, 0], Print ErrChecksumResend,
                 Tx [0x42], Tx [0x01], Tx [0x10, 0xFF], Tx [0xAE],
                 Rx 1 [0x40], Rx 4 [2, 0, 0, 0]],
        files = Map.empty\<rparr>)"
  using rejected_block_is_resent [of "[0, 0, 0, 0]"
      "start (Some 0x21 # map Some [0, 0, 0, 0] @ Some 0x40 # map Some [2, 0, 0, 0] @ [Some 0x3E])"
      "[Some 0x3E]" test_config "''/a''" "[]" "[0x10, 0xFF]",
      THEN conjunct2, THEN spec, of "[2, 0, 0, 0]"]
  by (simp add: start_def test_config_def accepted_def frame_events_def calculate_checksum_def
      send_blocks.simps print_if_def)

lemma upload_file_opened:
  assumes enc: "ascii_encode (''W:'' @ replace_backslash (removeprefix (FS_PATH cfg) pc_path)
                  @ [CHR 0x0A]) = Inr cmd"
    and rx: "rx w = Some 0x40 # map Some reserved @ r" and len: "length reserved = 4"
  shows "upload_file cfg (pc_path, content) w =
     (case send_blocks cfg (replace_backslash (removeprefix (FS_PATH cfg) pc_path)) content
             (w\<lparr>rx := r, trace := trace w
                @ [Print (MsgUploadFile pc_path (replace_backslash (removeprefix (FS_PATH cfg) pc_path))),
                   Tx cmd, Rx 5 (0x40 # reserved)]\<rparr>) of
        (Inl e, w3) \<Rightarrow> (Inl e, w3)
      | (Inr _, w3) \<Rightarrow>
          wait_ready (device_write [0x46] (print_if (VERBOSE cfg) DbgTerminating w3)))"
proof -
  have "take_rx 5 (Some 0x40 # map Some reserved @ r) = (0x40 # reserved, r)"
    using take_rx_all [of "0x40 # reserved" r] len by simp
  then show ?thesis using rx enc
    by (simp add: upload_file_def Let_def device_read_def device_write_def print_def emit_def)
qed

text \<open>
  Claim C1, as the code has it. When the acknowledgment of a block carries \<open>0x58\<close>,
  after any number of accepted blocks of the file, the client prints the error with the
  offset the device reported and exits with status 1. The error print is the last event
  of the session: no end-of-file byte is sent for the file, no ready prompt is awaited,
  and the remaining files of the tree are not touched.
\<close>

theorem write_failed_ends_session:
  assumes enc: "ascii_encode (''W:'' @ replace_backslash (removeprefix (FS_PATH cfg) pc_path)
                  @ [CHR 0x0A]) = Inr cmd"
    and len: "length reserved = 4" "list_all (\<lambda>off. length off = 4) offs" "length off = 4"
    and more: "length offs < length (blocks_256 content)"
    and rx: "rx w = Some 0x40 # map Some reserved @ acks offs @ Some 0x58 # map Some off @ r"
  shows "upload_files cfg ((pc_path, content) # rest) w =
     (Inl (Exit 1), w\<lparr>rx := r, trace := trace w
        @ [Print (MsgUploadFile pc_path (replace_backslash (removeprefix (FS_PATH cfg) pc_path))),
           Tx cmd, Rx 5 (0x40 # reserved)]
        @ concat (map (accepted cfg (replace_backslash (removeprefix (FS_PATH cfg) pc_path)))
            (zip (blocks_256 content) offs))
        @ frame_events (blocks_256 content ! length offs)
        @ [Rx 1 [0x58], Rx 4 off,
           Print (ErrUnableWrite (replace_backslash (removeprefix (FS_PATH cfg) pc_path))
             (unpack_le32 off))]\<rparr>)"
proof -
  define dev where "dev = replace_backslash (removeprefix (FS_PATH cfg) pc_path)"
  define w0 where "w0 = w\<lparr>rx := acks offs @ Some 0x58 # map Some off @ r, trace := trace w
                @ [Print (MsgUploadFile pc_path dev), Tx cmd, Rx 5 (0x40 # reserved)]\<rparr>"
  define w1 where "w1 = w0\<lparr>rx := Some 0x58 # map Some off @ r,
      trace := trace w0 @ concat (map (accepted cfg dev) (zip (blocks_256 content) offs))\<rparr>"
  define blk where "blk = take 256 (drop (256 * length offs) content)"
  from rx have rx': "rx w = Some 0x40 # map Some reserved @ (acks offs @ Some 0x58 # map Some off @ r)"
    by simp
  have op: "upload_file cfg (pc_path, content) w =
     (case send_blocks cfg dev content w0 of
        (Inl e, w3) \<Rightarrow> (Inl e, w3)
      | (Inr _, w3) \<Rightarrow>
          wait_ready (device_write [0x46] (print_if (VERBOSE cfg) DbgTerminating w3)))"
    unfolding dev_def w0_def by (rule upload_file_opened [OF enc rx' len(1)])
  have "rx w0 = acks offs @ (Some 0x58 # map Some off @ r)" by (simp add: w0_def)
  from send_blocks_accepted [OF len(2) less_imp_le [OF more] this, of cfg dev]
  have acc: "send_blocks cfg dev content w0 = send_blocks cfg dev (drop (256 * length offs) content) w1"
    by (simp add: w1_def)
  from more have nth: "blocks_256 content ! length offs = blk"
    by (simp add: blocks_256_def blk_def)
  from more have "256 * length offs < length content"
    by (simp add: length_blocks_256)
  then have ne: "length (take 256 (drop (256 * length offs) content)) \<noteq> 0"
    by (simp add: min_def)
  have "rx w1 = Some 0x58 # map Some off @ r" by (simp add: w1_def)
  from send_block_ack [OF this len(3), of cfg dev blk]
  have fail: "send_block cfg dev blk w1 = (Inl (Exit 1), w1\<lparr>rx := r, trace := trace w1 @ frame_events blk
                 @ [Rx 1 [0x58], Rx 4 off, Print (ErrUnableWrite dev (unpack_le32 off))]\<rparr>)"
    by simp
  define w2 where "w2 = w1\<lparr>rx := r, trace := trace w1 @ frame_events blk
                 @ [Rx 1 [0x58], Rx 4 off, Print (ErrUnableWrite dev (unpack_le32 off))]\<rparr>"
  have fin: "send_blocks cfg dev (drop (256 * length offs) content) w1 = (Inl (Exit 1), w2)"
    by (subst send_blocks.simps)
       (simp only: ne if_False fail [unfolded blk_def] prod.case sum.case blk_def w2_def)
  have res: "upload_files cfg ((pc_path, content) # rest) w = (Inl (Exit 1), w2)"
    by (simp only: upload_files.simps op acc fin prod.case sum.case)
  have "w2 = w\<lparr>rx := r, trace := trace w
        @ [Print (MsgUploadFile pc_path dev), Tx cmd, Rx 5 (0x40 # reserved)]
        @ concat (map (accepted cfg dev) (zip (blocks_256 content) offs))
        @ frame_events blk
        @ [Rx 1 [0x58], Rx 4 off, Print (ErrUnableWrite dev (unpack_le32 off))]\<rparr>"
    by (simp add: w2_def w1_def w0_def)
  then show ?thesis
    unfolding res dev_def [symmetric] nth by simp
qed

theorem write_failed_ends_session_witness:
  "upload_files test_config [(''fs/a'', [0x01]), (''fs/b'', [0x02])]
       (start (Some 0x40 # map Some [0, 0, 0, 0] @ acks [] @ Some 0x58 # map Some [0, 0, 0, 0]
          @ [Some 0x3E])) =
     (Inl (Exit 1), \<lparr>rx = [Some 0x3E],
        trace = [Print (MsgUploadFile ''fs/a'' ''/a''), Tx [0x57, 0x3A, 0x2F, 0x61, 0x0A],
                 Rx 5 [0x40, 0, 0, 0, 0],
                 Tx [0x42], Tx [0x00], Tx [0x01], Tx [0xBD],
                 Rx 1 [0x58], Rx 4 [0, 0, 0, 0], Print (ErrUnableWrite ''/a'' 0)],
        files = Map.empty\<rparr>)"
  using write_failed_ends_session [of test_config "''fs/a''" "[0x57, 0x3A, 0x2F, 0x61, 0x0A]"
      "[0, 0, 0, 0]" "[]" "[0, 0, 0, 0]" "[0x01]"
      "start (Some 0x40 # map Some [0, 0, 0, 0] @ acks [] @ Some 0x58 # map Some [0, 0, 0, 0]
          @ [Some 0x3E])" "[Some 0x3E]" "[(''fs/b'', [0x02])]"]
  by (simp add: start_def test_config_def acks_def frame_events_def calculate_checksum_def
      blocks_256_def ascii_encode_def removeprefix_def replace_backslash_def unpack_le32_def)

text \<open>
  Against claim C1 as stated: two files, and a device that opens the first, answers its
  only block with \<open>0x58\<close>, and would then serve the second file. The session ends with
  exit status 1 after the error print; \<^verbatim>\<open>W:/y\<close> is never sent.
\<close>

theorem write_failed_continues_counterexample:
  "fst (upload_files test_config [(''fs/x'', [0xAA, 0xBB]), (''fs/y'', [0xCC])]
       (start (map Some [0x40, 0, 0, 0, 0, 0x58, 0, 0, 0, 0, 0x3E,
                         0x40, 0, 0, 0, 0, 0x40, 1, 0, 0, 0, 0x3E]))) = Inl (Exit 1)
   \<and> trace (snd (upload_files test_config [(''fs/x'', [0xAA, 0xBB]), (''fs/y'', [0xCC])]
       (start (map Some [0x40, 0, 0, 0, 0, 0x58, 0, 0, 0, 0, 0x3E,
                         0x40, 0, 0, 0, 0, 0x40, 1, 0, 0, 0, 0x3E])))) =
       [Print (MsgUploadFile ''fs/x'' ''/x''), Tx [0x57, 0x3A, 0x2F, 0x78, 0x0A],
        Rx 5 [0x40, 0, 0, 0, 0],
        Tx [0x42], Tx [0x01], Tx [0xAA, 0xBB], Tx [0x58],
        Rx 1 [0x58], Rx 4 [0, 0, 0, 0], Print (ErrUnableWrite ''/x'' 0)]"
  by (simp add: upload_file_def send_blocks.simps send_block.simps run_simps test_config_def
      calculate_checksum_def removeprefix_def replace_backslash_def Let_def)

section \<open>The reformat request\<close>

lemma transmitted_device_read [simp]: "transmitted (snd (device_read n w)) = transmitted w"
  by (simp add: transmitted_def device_read_def emit_def split: prod.splits)

lemma transmitted_print [simp]: "transmitted (print m w) = transmitted w"
  by (simp add: transmitted_def print_def emit_def)

lemma transmitted_device_write [simp]: "transmitted (device_write bs w) = transmitted w @ [bs]"
  by (simp add: transmitted_def device_write_def emit_def)

lemma transmitted_poll_read [simp]: "transmitted (snd (poll_read k res w)) = transmitted w"
proof (induction k arbitrary: res w)
  case 0
  show ?case by simp
next
  case (Suc k)
  obtain r w1 where rd: "device_read 1 w = (r, w1)" by (cases "device_read 1 w")
  then have "transmitted w1 = transmitted w"
    using transmitted_device_read [of 1 w] by simp
  with Suc [of "[]" w1] rd show ?case by auto
qed

lemma take_rx_timeout: "0 < n \<Longrightarrow> take_rx n (None # xs) = ([], xs)"
  by (cases n) simp_all

lemma poll_read_byte:
  "j < k \<Longrightarrow> rx w = replicate j None @ Some b # r \<Longrightarrow> fst (poll_read k res w) = [b]"
proof (induction j arbitrary: k w res)
  case 0
  then obtain k' where k: "k = Suc k'" by (cases k) auto
  from 0 show ?case by (simp add: k device_read_def)
next
  case (Suc j)
  then obtain k' where k: "k = Suc k'" and j: "j < k'" by (cases k) auto
  from Suc.prems(2) have rd: "device_read 1 w = ([], emit (Rx 1 []) (w\<lparr>rx := replicate j None @ Some b # r\<rparr>))"
    by (simp add: device_read_def)
  have "rx (emit (Rx 1 []) (w\<lparr>rx := replicate j None @ Some b # r\<rparr>)) = replicate j None @ Some b # r"
    by simp
  from Suc.IH [OF j this, of "[]"] rd show ?case by (simp add: k)
qed

lemma poll_read_silence:
  "list_all (\<lambda>x. x = None) (take k (rx w)) \<Longrightarrow> fst (poll_read k res w) = (if k = 0 then res else [])"
proof (induction k arbitrary: w res)
  case 0
  show ?case by simp
next
  case (Suc k)
  show ?case
  proof (cases "rx w")
    case Nil
    then have rd: "device_read 1 w = ([], emit (Rx 1 []) (w\<lparr>rx := []\<rparr>))"
      by (simp add: device_read_def)
    have "list_all (\<lambda>x. x = None) (take k (rx (emit (Rx 1 []) (w\<lparr>rx := []\<rparr>))))" by simp
    from Suc.IH [OF this, of "[]"] rd show ?thesis by simp
  next
    case (Cons x xs)
    with Suc.prems have x: "x = None" and xs: "list_all (\<lambda>x. x = None) (take k xs)" by simp_all
    from Cons x have rd: "device_read 1 w = ([], emit (Rx 1 []) (w\<lparr>rx := xs\<rparr>))"
      by (simp add: device_read_def)
    from xs have "list_all (\<lambda>x. x = None) (take k (rx (emit (Rx 1 []) (w\<lparr>rx := xs\<rparr>))))" by simp
    from Suc.IH [OF this, of "[]"] rd show ?thesis by simp
  qed
qed

text \<open>
  Claim C8. In reformat mode, when the first byte the device sends within the request
  window is \<open>0x58\<close>, or when every read of the window times out, the upload phase ends
  with exit status 1 and the only bytes it has written to the device are the command
  \<^verbatim>\<open>Z\<close> and its line feed: no \<^verbatim>\<open>W:\<close> command is issued, whatever the file tree holds.
\<close>

theorem no_upload_without_confirmation:
  assumes "\<not> NO_REFORMAT cfg"
    and "(\<exists>j r. j < req_polls cfg \<and> rx w = replicate j None @ Some 0x58 # r)
         \<or> list_all (\<lambda>x. x = None) (take (req_polls cfg) (rx w))"
  shows "fst (upload cfg tree w) = Inl (Exit 1)
     \<and> transmitted (snd (upload cfg tree w)) = transmitted w @ [[0x5A, 0x0A]]"
proof -
  let ?w1 = "device_write [0x5A, 0x0A] (print MsgConfirmReformat w)"
  obtain result w2 where p: "poll_read (req_polls cfg) [] ?w1 = (result, w2)"
    by (cases "poll_read (req_polls cfg) [] ?w1")
  have tx: "transmitted w2 = transmitted w @ [[0x5A, 0x0A]]"
    using transmitted_poll_read [of "req_polls cfg" "[]" ?w1] p by simp
  from assms(2) have "result = [0x58] \<or> result = []"
  proof
    assume "\<exists>j r. j < req_polls cfg \<and> rx w = replicate j None @ Some 0x58 # r"
    then obtain j r where "j < req_polls cfg" "rx ?w1 = replicate j None @ Some 0x58 # r"
      by auto
    from poll_read_byte [OF this, of "[]"] p show ?thesis by simp
  next
    assume "list_all (\<lambda>x. x = None) (take (req_polls cfg) (rx w))"
    then have "list_all (\<lambda>x. x = None) (take (req_polls cfg) (rx ?w1))" by simp
    from poll_read_silence [OF this, of "[]"] p show ?thesis by simp
  qed
  then show ?thesis
    using assms(1) p tx by (auto simp: upload_def reformat_def)
qed

theorem no_upload_without_confirmation_witness:
  "fst (upload test_config [(''fs/a'', [0x01])] (start [None, None, Some 0x58, Some 0x3E])) = Inl (Exit 1)
   \<and> transmitted (snd (upload test_config [(''fs/a'', [0x01])]
         (start [None, None, Some 0x58, Some 0x3E]))) = [[0x5A, 0x0A]]
   \<and> fst (upload test_config [(''fs/a'', [0x01])]
         (start [None, None, None, None, Some 0x2E, Some 0x40, Some 0x3E])) = Inl (Exit 1)
   \<and> transmitted (snd (upload test_config [(''fs/a'', [0x01])]
         (start [None, None, None, None, Some 0x2E, Some 0x40, Some 0x3E]))) = [[0x5A, 0x0A]]"
proof -
  have nr: "\<not> NO_REFORMAT test_config" by (simp add: test_config_def)
  have "Suc (Suc 0) < req_polls test_config
      \<and> rx (start [None, None, Some 0x58, Some 0x3E]) = replicate (Suc (Suc 0)) None @ Some 0x58 # [Some 0x3E]"
    by (simp add: test_config_def start_def)
  then have d: "(\<exists>j r. j < req_polls test_config
        \<and> rx (start [None, None, Some 0x58, Some 0x3E]) = replicate j None @ Some 0x58 # r)
      \<or> list_all (\<lambda>x. x = None) (take (req_polls test_config)
            (rx (start [None, None, Some 0x58, Some 0x3E])))"
    by blast
  have t: "(\<exists>j r. j < req_polls test_config
        \<and> rx (start [None, None, None, None, Some 0x2E, Some 0x40, Some 0x3E])
            = replicate j None @ Some 0x58 # r)
      \<or> list_all (\<lambda>x. x = None) (take (req_polls test_config)
            (rx (start [None, None, None, None, Some 0x2E, Some 0x40, Some 0x3E])))"
    by (simp add: test_config_def start_def)
  from no_upload_without_confirmation [OF nr d, of "[(''fs/a'', [0x01])]"]
    no_upload_without_confirmation [OF nr t, of "[(''fs/a'', [0x01])]"]
  show ?thesis by (simp add: transmitted_def start_def)
qed

section \<open>Downloading one file\<close>

lemma files_print [simp]: "files (print m w) = files w"
  by (simp add: print_def emit_def)

lemma files_print_if [simp]: "files (print_if c m w) = files w"
  by (simp add: print_if_def)

lemma files_device_write [simp]: "files (device_write bs w) = files w"
  by (simp add: device_write_def emit_def)

lemma files_device_read [simp]: "files (snd (device_read n w)) = files w"
  by (simp add: device_read_def emit_def split: prod.splits)

lemma files_read_32le [simp]: "files (snd (read_32le w)) = files w"
  by (auto simp: read_32le_def device_read_def emit_def print_def split: prod.splits)

lemma files_wait_ready [simp]: "files (snd (wait_ready w)) = files w"
  by (auto simp: wait_ready_def device_read_def emit_def print_def split: prod.splits)

lemma take_rx_short:
  "length bs < n \<Longrightarrow> take_rx n (map Some bs @ None # xs) = (bs, xs)"
proof (induction bs arbitrary: n)
  case Nil
  then show ?case by (cases n) simp_all
next
  case (Cons b bs)
  then show ?case by (cases n) simp_all
qed

lemma checksum_two_ranges: "calculate_checksum [a, b] = calculate_checksum [a @ b]"
  by (simp add: calculate_checksum_def)

lemma grows_refl [simp]: "grows w w"
  by (simp add: grows_def)

lemma grows_trans: "grows a b \<Longrightarrow> grows b c \<Longrightarrow> grows a c"
  by (auto simp: grows_def)

lemma grows_print: "grows w (print m w)"
  by (simp add: grows_def print_def emit_def)

lemma grows_print_if: "grows w (print_if c m w)"
  by (simp add: print_if_def grows_print)

lemma grows_device_read: "grows w (snd (device_read n w))"
  by (simp add: grows_def trace_device_read)

lemma grows_read_32le: "grows w (snd (read_32le w))"
  using trace_read_32le [of w] by (simp add: grows_def)

lemma grows_wait_ready: "grows w (snd (wait_ready w))"
  by (auto simp: grows_def wait_ready_def device_read_def print_def emit_def split: prod.splits)

lemma grows_file_write: "grows w (file_write p d w)"
  by (simp add: grows_def file_write_def emit_def)

lemma take_rx_full:
  "take_rx n xs = (bs, r) \<Longrightarrow> length bs = n \<Longrightarrow> xs = map Some bs @ r"
proof (induction n xs arbitrary: bs r rule: take_rx.induct)
  case (4 n b xs)
  obtain bs' r' where t: "take_rx n xs = (bs', r')" by (cases "take_rx n xs")
  with "4.prems" have "bs = b # bs'" "r = r'" "length bs' = n" by auto
  with "4.IH" [OF t] show ?case by simp
qed auto

lemma device_read_full:
  "device_read n w = (bs, w') \<Longrightarrow> length bs = n \<Longrightarrow> rx w = map Some bs @ rx w'"
  by (auto simp: device_read_def dest: take_rx_full split: prod.splits)

lemma read_32le_full:
  "read_32le w = (Inr (sz, sb), w') \<Longrightarrow>
     rx w = map Some sb @ rx w' \<and> length sb = 4 \<and> sz = unpack_le32 sb"
  by (auto simp: read_32le_def dest: device_read_full split: prod.splits if_splits)

lemma wait_ready_events:
  "\<exists>evs. trace (snd (wait_ready w)) = trace w @ evs \<and> list_all prompt_event evs"
  by (auto simp: wait_ready_def device_read_def print_def emit_def prompt_event_def
      split: prod.splits)

lemma byte_le_255: "unat (b :: byte) \<le> 255"
proof -
  have "unat b < 2 ^ LENGTH(8)" by (rule unsigned_less)
  then show ?thesis by simp
qed

lemma unpack_le32_bound: "unpack_le32 sb \<le> 0xFFFFFFFF"
proof -
  have "unat (sb ! 0) + 256 * unat (sb ! 1) + 65536 * unat (sb ! 2) + 16777216 * unat (sb ! 3)
      \<le> 255 + 256 * 255 + 65536 * 255 + 16777216 * 255"
    by (intro add_mono mult_le_mono2 byte_le_255)
  then show ?thesis by (simp add: unpack_le32_def)
qed

lemma files_device_read_eq: "device_read n w = (bs, w') \<Longrightarrow> files w' = files w"
  using files_device_read [of n w] by (simp del: files_device_read)

lemma dump_file_sized:
  assumes cr: "creatable cfg (path_join (FS_PATH cfg) (drop 1 dev))"
    and enc: "ascii_encode (''R:'' @ dev @ [CHR 0x0A]) = Inr cmd"
    and len: "length size_bytes = 4" and rx: "rx w = map Some size_bytes @ r"
    and w2: "w2 = w\<lparr>rx := r, trace := trace w
        @ [Print (MsgDumpFile dev (path_join (FS_PATH cfg) (drop 1 dev))),
           FOpen (path_join (FS_PATH cfg) (drop 1 dev)), Tx cmd, Rx 4 size_bytes],
        files := (files w)(path_join (FS_PATH cfg) (drop 1 dev) \<mapsto> [])\<rparr>"
  shows "dump_file cfg fs_listing dev w =
     (if unpack_le32 size_bytes = 0xFFFFFFFF then wait_ready (print (ErrNotExist dev) w2)
      else if unpack_le32 size_bytes = 0xFFFFFFFE \<or> unpack_le32 size_bytes = 0xFFFFFFFD
        then wait_ready (print (ErrCannotOpen dev) w2)
      else
        (case map_of fs_listing dev of
           None \<Rightarrow> (Inl KeyError, w2)
         | Some listed \<Rightarrow>
        (case device_read (unpack_le32 size_bytes)
                (print_if (unpack_le32 size_bytes \<noteq> listed)
                   (WrnSizeChanged listed (unpack_le32 size_bytes)) w2) of
           (contents, w4) \<Rightarrow>
        (case device_read 1 w4 of
           (ck, w5) \<Rightarrow>
             if ck = [] then (Inl IndexError, w5)
             else
               (let checksum = hd ck;
                    w6 = print_if (VERBOSE cfg)
                           (DbgRetrieved (length contents) (unpack_le32 size_bytes) checksum) w5 in
                if length contents \<noteq> unpack_le32 size_bytes
                  then wait_ready (print (ErrIncomplete (length contents) (unpack_le32 size_bytes)) w6)
                else if calculate_checksum [size_bytes, contents] \<noteq> uint checksum
                  then wait_ready (print ErrChecksum w6)
                else wait_ready (file_write (path_join (FS_PATH cfg) (drop 1 dev)) contents w6))))))"
proof -
  define pc where "pc = path_join (FS_PATH cfg) (drop 1 dev)"
  define w1 where "w1 = device_write cmd (open_wb pc (print (MsgDumpFile dev pc) w))"
  have "rx w1 = map Some size_bytes @ r"
    by (simp add: w1_def open_wb_def rx)
  from read_32le_bytes [OF this len]
  have rd: "read_32le w1 = (Inr (unpack_le32 size_bytes, size_bytes), w2)"
    by (simp add: w1_def w2 open_wb_def device_write_def print_def emit_def pc_def)
  show ?thesis
    unfolding dump_file_def Let_def pc_def [symmetric]
    using cr [folded pc_def]
    by (simp only: enc sum.case rd [unfolded w1_def] prod.case if_False not_True_eq_False
        simp_thms)
qed

lemma dump_file_reads:
  assumes cr: "creatable cfg (path_join (FS_PATH cfg) (drop 1 dev))"
    and enc: "ascii_encode (''R:'' @ dev @ [CHR 0x0A]) = Inr cmd"
    and len: "length size_bytes = 4" and rx: "rx w = map Some size_bytes @ r"
    and w2: "w2 = w\<lparr>rx := r, trace := trace w
        @ [Print (MsgDumpFile dev (path_join (FS_PATH cfg) (drop 1 dev))),
           FOpen (path_join (FS_PATH cfg) (drop 1 dev)), Tx cmd, Rx 4 size_bytes],
        files := (files w)(path_join (FS_PATH cfg) (drop 1 dev) \<mapsto> [])\<rparr>"
    and sz: "unpack_le32 size_bytes < 0xFFFFFFFD"
    and listed: "map_of fs_listing dev = Some listed"
  shows "\<exists>contents ck evs.
     trace (snd (dump_file cfg fs_listing dev w)) =
       trace w2
         @ (if unpack_le32 size_bytes \<noteq> listed
            then [Print (WrnSizeChanged listed (unpack_le32 size_bytes))] else [])
         @ [Rx (unpack_le32 size_bytes) contents, Rx 1 ck] @ evs"
proof -
  define pc where "pc = path_join (FS_PATH cfg) (drop 1 dev)"
  define n where "n = unpack_le32 size_bytes"
  define w3 where "w3 = print_if (n \<noteq> listed) (WrnSizeChanged listed n) w2"
  obtain contents w4 where r4: "device_read n w3 = (contents, w4)"
    by (cases "device_read n w3")
  obtain ck w5 where r5: "device_read 1 w4 = (ck, w5)"
    by (cases "device_read 1 w4")
  define w6 where "w6 = print_if (VERBOSE cfg) (DbgRetrieved (length contents) n (hd ck)) w5"
  have t3: "trace w3 = trace w2 @ (if n \<noteq> listed then [Print (WrnSizeChanged listed n)] else [])"
    by (simp add: w3_def print_if_def print_def emit_def)
  have t4: "trace w4 = trace w3 @ [Rx n contents]"
    using trace_device_read [of n w3] r4 by simp
  have t5: "trace w5 = trace w4 @ [Rx 1 ck]"
    using trace_device_read [of 1 w4] r5 by simp
  have g6: "grows w5 w6" unfolding w6_def by (rule grows_print_if)
  have after: "grows w5 (snd (wait_ready (print m w6)))" for m
    by (rule grows_trans [OF g6 grows_trans [OF grows_print grows_wait_ready]])
  have after': "grows w5 (snd (wait_ready (file_write pc contents w6)))"
    by (rule grows_trans [OF g6 grows_trans [OF grows_file_write grows_wait_ready]])
  have "dump_file cfg fs_listing dev w =
         (if ck = [] then (Inl IndexError, w5)
          else if length contents \<noteq> n
            then wait_ready (print (ErrIncomplete (length contents) n) w6)
          else if calculate_checksum [size_bytes, contents] \<noteq> uint (hd ck)
            then wait_ready (print ErrChecksum w6)
          else wait_ready (file_write pc contents w6))"
    using sz listed r4 [unfolded w3_def] r5
    by (simp add: dump_file_sized [OF cr enc len rx w2, of fs_listing, folded pc_def n_def]
        Let_def w6_def flip: n_def)
  then have "grows w5 (snd (dump_file cfg fs_listing dev w))"
    using after after' by simp
  then obtain evs where "trace (snd (dump_file cfg fs_listing dev w)) = trace w5 @ evs"
    by (auto simp: grows_def)
  then have "trace (snd (dump_file cfg fs_listing dev w)) =
       trace w2 @ (if n \<noteq> listed then [Print (WrnSizeChanged listed n)] else [])
         @ [Rx n contents, Rx 1 ck] @ evs"
    by (simp add: t5 t4 t3)
  then show ?thesis unfolding n_def by blast
qed

text \<open>
  Claim C6. After \<^verbatim>\<open>R:<path>\<close> and a size of four bytes: the size \<open>0xFFFFFFFF\<close> prints
  the does-not-exist error and goes straight to the ready prompt, with no read in
  between; \<open>0xFFFFFFFE\<close> and \<open>0xFFFFFFFD\<close> print the cannot-be-opened error and go to the
  ready prompt. For any other size, when the device delivers that many content bytes and
  one more byte, exactly these are read (one read of the size, one read of one byte);
  the checksum of the size bytes followed by the content is compared with the last byte;
  when they differ the checksum error is printed and nothing is written, so the
  destination stays empty; when they agree the content is written to the destination.
  Whatever the device delivers, the reads that follow a size that is no sentinel are one
  read of that many bytes and then one read of one byte.
\<close>

theorem download_sentinels_and_checksum:
  assumes cr: "creatable cfg (path_join (FS_PATH cfg) (drop 1 dev))"
    and enc: "ascii_encode (''R:'' @ dev @ [CHR 0x0A]) = Inr cmd"
    and len: "length size_bytes = 4" and rx: "rx w = map Some size_bytes @ r"
    and w2: "w2 = w\<lparr>rx := r, trace := trace w
        @ [Print (MsgDumpFile dev (path_join (FS_PATH cfg) (drop 1 dev))),
           FOpen (path_join (FS_PATH cfg) (drop 1 dev)), Tx cmd, Rx 4 size_bytes],
        files := (files w)(path_join (FS_PATH cfg) (drop 1 dev) \<mapsto> [])\<rparr>"
  shows "(unpack_le32 size_bytes = 0xFFFFFFFF \<longrightarrow>
            dump_file cfg fs_listing dev w =
              wait_ready (w2\<lparr>trace := trace w2 @ [Print (ErrNotExist dev)]\<rparr>))
     \<and> (unpack_le32 size_bytes = 0xFFFFFFFE \<or> unpack_le32 size_bytes = 0xFFFFFFFD \<longrightarrow>
            dump_file cfg fs_listing dev w =
              wait_ready (w2\<lparr>trace := trace w2 @ [Print (ErrCannotOpen dev)]\<rparr>))
     \<and> (\<forall>listed contents ck r'.
            unpack_le32 size_bytes < 0xFFFFFFFD \<and> map_of fs_listing dev = Some listed
            \<and> length contents = unpack_le32 size_bytes \<and> r = map Some (contents @ [ck]) @ r' \<longrightarrow>
            dump_file cfg fs_listing dev w =
              wait_ready (w2\<lparr>rx := r',
                trace := trace w2
                  @ (if length contents \<noteq> listed
                     then [Print (WrnSizeChanged listed (length contents))] else [])
                  @ [Rx (length contents) contents, Rx 1 [ck]]
                  @ (if VERBOSE cfg
                     then [Print (DbgRetrieved (length contents) (length contents) ck)] else [])
                  @ (if calculate_checksum [size_bytes @ contents] = uint ck
                     then [FWrite (path_join (FS_PATH cfg) (drop 1 dev)) contents]
                     else [Print ErrChecksum]),
                files := (files w2)(path_join (FS_PATH cfg) (drop 1 dev) \<mapsto>
                  (if calculate_checksum [size_bytes @ contents] = uint ck then contents else []))\<rparr>))
     \<and> (\<forall>listed.
            unpack_le32 size_bytes < 0xFFFFFFFD \<and> map_of fs_listing dev = Some listed \<longrightarrow>
            (\<exists>contents ck evs.
               trace (snd (dump_file cfg fs_listing dev w)) =
                 trace w2
                   @ (if unpack_le32 size_bytes \<noteq> listed
                      then [Print (WrnSizeChanged listed (unpack_le32 size_bytes))] else [])
                   @ [Rx (unpack_le32 size_bytes) contents, Rx 1 ck] @ evs))"
proof (intro conjI impI allI)
  assume "unpack_le32 size_bytes = 0xFFFFFFFF"
  then show "dump_file cfg fs_listing dev w =
      wait_ready (w2\<lparr>trace := trace w2 @ [Print (ErrNotExist dev)]\<rparr>)"
    by (simp add: dump_file_sized [OF cr enc len rx w2] print_def emit_def)
next
  assume "unpack_le32 size_bytes = 0xFFFFFFFE \<or> unpack_le32 size_bytes = 0xFFFFFFFD"
  then show "dump_file cfg fs_listing dev w =
      wait_ready (w2\<lparr>trace := trace w2 @ [Print (ErrCannotOpen dev)]\<rparr>)"
    by (auto simp: dump_file_sized [OF cr enc len rx w2] print_def emit_def)
next
  fix listed contents ck r'
  assume a: "unpack_le32 size_bytes < 0xFFFFFFFD \<and> map_of fs_listing dev = Some listed
            \<and> length contents = unpack_le32 size_bytes \<and> r = map Some (contents @ [ck]) @ r'"
  define pc where "pc = path_join (FS_PATH cfg) (drop 1 dev)"
  define sz where "sz = unpack_le32 size_bytes"
  define w3 where "w3 = print_if (sz \<noteq> listed) (WrnSizeChanged listed sz) w2"
  define w4 where "w4 = w3\<lparr>rx := Some ck # r', trace := trace w3 @ [Rx sz contents]\<rparr>"
  define w5 where "w5 = w4\<lparr>rx := r', trace := trace w4 @ [Rx 1 [ck]]\<rparr>"
  from a have sz: "sz < 0xFFFFFFFD" "length contents = sz" and listed: "map_of fs_listing dev = Some listed"
    and r: "r = map Some contents @ Some ck # r'"
    by (simp_all add: sz_def)
  have fw: "(files w2)(pc \<mapsto> []) = files w2"
    by (simp add: w2 pc_def)
  have "rx w3 = map Some contents @ Some ck # r'"
    by (simp add: w3_def w2 r)
  then have "take_rx sz (rx w3) = (contents, Some ck # r')"
    using take_rx_all [of contents "Some ck # r'"] sz(2) by simp
  then have r1: "device_read sz w3 = (contents, w4)"
    by (simp add: device_read_def emit_def w4_def)
  have r2: "device_read 1 w4 = ([ck], w5)"
    by (simp add: device_read_def emit_def w4_def w5_def)
  have "dump_file cfg fs_listing dev w =
      (if calculate_checksum [size_bytes, contents] \<noteq> uint ck
       then wait_ready (print ErrChecksum (print_if (VERBOSE cfg) (DbgRetrieved sz sz ck) w5))
       else wait_ready (file_write pc contents (print_if (VERBOSE cfg) (DbgRetrieved sz sz ck) w5)))"
    using sz listed r1 [unfolded w3_def] r2
    by (simp add: dump_file_sized [OF cr enc len rx w2, of fs_listing, folded sz_def pc_def]
        Let_def)
  then show "dump_file cfg fs_listing dev w =
              wait_ready (w2\<lparr>rx := r',
                trace := trace w2
                  @ (if length contents \<noteq> listed
                     then [Print (WrnSizeChanged listed (length contents))] else [])
                  @ [Rx (length contents) contents, Rx 1 [ck]]
                  @ (if VERBOSE cfg
                     then [Print (DbgRetrieved (length contents) (length contents) ck)] else [])
                  @ (if calculate_checksum [size_bytes @ contents] = uint ck
                     then [FWrite (path_join (FS_PATH cfg) (drop 1 dev)) contents]
                     else [Print ErrChecksum]),
                files := (files w2)(path_join (FS_PATH cfg) (drop 1 dev) \<mapsto>
                  (if calculate_checksum [size_bytes @ contents] = uint ck then contents else []))\<rparr>)"
    unfolding pc_def [symmetric]
    by (auto simp: sz(2) w5_def w4_def w3_def print_def print_if_def emit_def file_write_def
        checksum_two_ranges fw intro!: arg_cong [of _ _ wait_ready] world.equality)
next
  fix listed
  assume "unpack_le32 size_bytes < 0xFFFFFFFD \<and> map_of fs_listing dev = Some listed"
  then have "unpack_le32 size_bytes < 0xFFFFFFFD" and "map_of fs_listing dev = Some listed"
    by simp_all
  then show "\<exists>contents ck evs.
               trace (snd (dump_file cfg fs_listing dev w)) =
                 trace w2
                   @ (if unpack_le32 size_bytes \<noteq> listed
                      then [Print (WrnSizeChanged listed (unpack_le32 size_bytes))] else [])
                   @ [Rx (unpack_le32 size_bytes) contents, Rx 1 ck] @ evs"
    by (rule dump_file_reads [OF cr enc len rx w2])
qed

lemmas dump_run_simps = test_config_def start_def path_join_def ascii_encode_def unpack_le32_def
  wait_ready_def device_read_def emit_def take_rx_Nil take_rx_Cons calculate_checksum_def

theorem download_sentinels_and_checksum_witness:
  "dump_file test_config [(''/a'', 2)] ''/a'' (start (map Some [0xFF, 0xFF, 0xFF, 0xFF] @ [Some 0x3E])) =
     (Inr (), \<lparr>rx = [],
        trace = [Print (MsgDumpFile ''/a'' ''fs/a''), FOpen ''fs/a'', Tx [0x52, 0x3A, 0x2F, 0x61, 0x0A],
                 Rx 4 [0xFF, 0xFF, 0xFF, 0xFF], Print (ErrNotExist ''/a''), Rx 1 [0x3E]],
        files = [''fs/a'' \<mapsto> []]\<rparr>)
   \<and> dump_file test_config [(''/a'', 2)] ''/a'' (start (map Some [0xFD, 0xFF, 0xFF, 0xFF] @ [Some 0x3E])) =
     (Inr (), \<lparr>rx = [],
        trace = [Print (MsgDumpFile ''/a'' ''fs/a''), FOpen ''fs/a'', Tx [0x52, 0x3A, 0x2F, 0x61, 0x0A],
                 Rx 4 [0xFD, 0xFF, 0xFF, 0xFF], Print (ErrCannotOpen ''/a''), Rx 1 [0x3E]],
        files = [''fs/a'' \<mapsto> []]\<rparr>)
   \<and> dump_file test_config [(''/a'', 2)] ''/a''
       (start (map Some [2, 0, 0, 0] @ map Some ([0x10, 0x20] @ [0xCE]) @ [Some 0x3E])) =
     (Inr (), \<lparr>rx = [],
        trace = [Print (MsgDumpFile ''/a'' ''fs/a''), FOpen ''fs/a'', Tx [0x52, 0x3A, 0x2F, 0x61, 0x0A],
                 Rx 4 [2, 0, 0, 0], Rx 2 [0x10, 0x20], Rx 1 [0xCE], FWrite ''fs/a'' [0x10, 0x20],
                 Rx 1 [0x3E]],
        files = [''fs/a'' \<mapsto> [0x10, 0x20]]\<rparr>)
   \<and> dump_file test_config [(''/a'', 2)] ''/a''
       (start (map Some [2, 0, 0, 0] @ map Some ([0x10, 0x20] @ [0xCF]) @ [Some 0x3E])) =
     (Inr (), \<lparr>rx = [],
        trace = [Print (MsgDumpFile ''/a'' ''fs/a''), FOpen ''fs/a'', Tx [0x52, 0x3A, 0x2F, 0x61, 0x0A],
                 Rx 4 [2, 0, 0, 0], Rx 2 [0x10, 0x20], Rx 1 [0xCF], Print ErrChecksum,
                 Rx 1 [0x3E]],
        files = [''fs/a'' \<mapsto> []]\<rparr>)"
proof -
  have cr: "creatable test_config (path_join (FS_PATH test_config) (drop 1 ''/a''))"
    by (simp add: test_config_def)
  have enc: "ascii_encode (''R:'' @ ''/a'' @ [CHR 0x0A]) = Inr [0x52, 0x3A, 0x2F, 0x61, 0x0A]"
    by (simp add: ascii_encode_def)
  have rx: "rx (start (map Some bs @ r)) = map Some bs @ r" for bs r
    by (simp add: start_def)
  note inst = download_sentinels_and_checksum [where cfg = test_config and dev = "''/a''"
      and fs_listing = "[(''/a'', 2)]", OF cr enc _ rx refl]
  have a: "length [0xFF, 0xFF, 0xFF, 0xFF :: byte] = 4" by simp
  have b: "length [0xFD, 0xFF, 0xFF, 0xFF :: byte] = 4" by simp
  have c: "length [2, 0, 0, 0 :: byte] = 4" by simp
  from inst [OF a, where r = "[Some 0x3E]", THEN conjunct1]
    inst [OF b, where r = "[Some 0x3E]", THEN conjunct2, THEN conjunct1]
    inst [OF c, where r = "map Some ([0x10, 0x20] @ [0xCE]) @ [Some 0x3E]",
      THEN conjunct2, THEN conjunct2, THEN conjunct1, THEN spec, THEN spec, THEN spec, THEN spec,
      of 2 "[0x10, 0x20]" "0xCE" "[Some 0x3E]"]
    inst [OF c, where r = "map Some ([0x10, 0x20] @ [0xCF]) @ [Some 0x3E]",
      THEN conjunct2, THEN conjunct2, THEN conjunct1, THEN spec, THEN spec, THEN spec, THEN spec,
      of 2 "[0x10, 0x20]" "0xCF" "[Some 0x3E]"]
    inst [OF c, where r = "map Some ([0x10, 0x20] @ [0xCF]) @ [Some 0x3E]",
      THEN conjunct2, THEN conjunct2, THEN conjunct2, THEN spec, of 2]
  show ?thesis
    by (simp add: dump_run_simps)
qed

lemma dump_file_outcome:
  assumes cr: "creatable cfg pc"
    and enc: "ascii_encode (''R:'' @ dev @ [CHR 0x0A]) = Inr cmd"
    and D: "dump_file cfg fs_listing dev w = (res, w')"
    and pc: "pc = path_join (FS_PATH cfg) (drop 1 dev)"
    and w1: "w1 = device_write cmd (open_wb pc (print (MsgDumpFile dev pc) w))"
  shows "grows w1 w'
     \<and> (files w' pc = Some []
          \<or> (\<exists>size_bytes contents ck r evs.
                rx w = map Some (size_bytes @ contents @ [ck]) @ r \<and> length size_bytes = 4
                \<and> unpack_le32 size_bytes = length contents \<and> length contents < 0xFFFFFFFD
                \<and> calculate_checksum [size_bytes @ contents] = uint ck
                \<and> files w' pc = Some contents
                \<and> trace w' = trace w1 @ evs
                \<and> list_all (\<lambda>e. e \<noteq> Print (ErrNotExist dev) \<and> e \<noteq> Print (ErrCannotOpen dev)
                      \<and> e \<noteq> Print ErrChecksum \<and> (\<forall>got sz. e \<noteq> Print (ErrIncomplete got sz))) evs))"
proof -
  have f1: "files w1 pc = Some []" by (simp add: w1 open_wb_def emit_def)
  have rx1: "rx w1 = rx w" by (simp add: w1 open_wb_def)
  obtain r1 w2 where rd: "read_32le w1 = (r1, w2)" by (cases "read_32le w1")
  have g2: "grows w1 w2" using grows_read_32le [of w1] rd by simp
  have f2: "files w2 pc = Some []" using files_read_32le [of w1] rd f1 by simp
  have body: "dump_file cfg fs_listing dev w =
     (case read_32le w1 of
           (Inl e, w2) \<Rightarrow> (Inl e, w2)
         | (Inr (sz, size_bytes), w2) \<Rightarrow>
             if sz = 0xFFFFFFFF then wait_ready (print (ErrNotExist dev) w2)
             else if sz = 0xFFFFFFFE \<or> sz = 0xFFFFFFFD
               then wait_ready (print (ErrCannotOpen dev) w2)
             else
               (case map_of fs_listing dev of
                  None \<Rightarrow> (Inl KeyError, w2)
                | Some listed \<Rightarrow>
               (case device_read sz (print_if (sz \<noteq> listed) (WrnSizeChanged listed sz) w2) of
                  (contents, w4) \<Rightarrow>
               (case device_read 1 w4 of
                  (ck, w5) \<Rightarrow>
                    if ck = [] then (Inl IndexError, w5)
                    else
                      (let checksum = hd ck;
                           w6 = print_if (VERBOSE cfg)
                                  (DbgRetrieved (length contents) sz checksum) w5 in
                       if length contents \<noteq> sz
                         then wait_ready (print (ErrIncomplete (length contents) sz) w6)
                       else if calculate_checksum [size_bytes, contents] \<noteq> uint checksum
                         then wait_ready (print ErrChecksum w6)
                       else wait_ready (file_write pc contents w6))))))"
    unfolding dump_file_def Let_def pc [symmetric] w1
    using cr by (simp only: enc sum.case if_False not_True_eq_False simp_thms)
  show ?thesis
  proof (cases r1)
    case (Inl e)
    with D rd have "w' = w2" by (simp add: body)
    with g2 f2 show ?thesis by simp
  next
    case (Inr v)
    obtain sz sb where v: "v = (sz, sb)" by (cases v)
    from rd Inr v have rd': "read_32le w1 = (Inr (sz, sb), w2)" by simp
    from read_32le_full [OF rd'] rx1
    have sb: "rx w = map Some sb @ rx w2" "length sb = 4" "sz = unpack_le32 sb" by simp_all
    from rd' have t2: "trace w2 = trace w1 @ [Rx 4 sb]"
      by (auto simp: read_32le_def device_read_def emit_def split: prod.splits if_splits)
    have skip: "grows w1 (snd (wait_ready (print m w2)))
        \<and> files (snd (wait_ready (print m w2))) pc = Some []" for m
      using grows_trans [OF g2 grows_trans [OF grows_print grows_wait_ready], of m] f2
      by simp
    consider (nf) "sz = 0xFFFFFFFF" | (co) "sz = 0xFFFFFFFE \<or> sz = 0xFFFFFFFD"
      | (ke) "sz \<noteq> 0xFFFFFFFF" "sz \<noteq> 0xFFFFFFFE" "sz \<noteq> 0xFFFFFFFD" "map_of fs_listing dev = None"
      | (rd) listed where "sz \<noteq> 0xFFFFFFFF" "sz \<noteq> 0xFFFFFFFE" "sz \<noteq> 0xFFFFFFFD"
          "map_of fs_listing dev = Some listed"
      by (cases "map_of fs_listing dev") auto
    then show ?thesis
    proof cases
      case nf
      with D rd' have "w' = snd (wait_ready (print (ErrNotExist dev) w2))"
        by (simp add: body)
      with skip show ?thesis by simp
    next
      case co
      with D rd' have "w' = snd (wait_ready (print (ErrCannotOpen dev) w2))"
        by (auto simp: body)
      with skip show ?thesis by simp
    next
      case ke
      with D rd' have "w' = w2" by (simp add: body)
      with g2 f2 show ?thesis by simp
    next
      case (rd listed)
      define w3 where "w3 = print_if (sz \<noteq> listed) (WrnSizeChanged listed sz) w2"
      obtain contents w4 where r4: "device_read sz w3 = (contents, w4)"
        by (cases "device_read sz w3")
      obtain ck w5 where r5: "device_read 1 w4 = (ck, w5)"
        by (cases "device_read 1 w4")
      define w6 where "w6 = print_if (VERBOSE cfg) (DbgRetrieved (length contents) sz (hd ck)) w5"
      have t3: "trace w3 = trace w2 @ (if sz \<noteq> listed then [Print (WrnSizeChanged listed sz)] else [])"
        by (simp add: w3_def print_if_def print_def emit_def)
      have t4: "trace w4 = trace w3 @ [Rx sz contents]"
        using trace_device_read [of sz w3] r4 by simp
      have t5: "trace w5 = trace w4 @ [Rx 1 ck]"
        using trace_device_read [of 1 w4] r5 by simp
      have t6: "trace w6 = trace w5
          @ (if VERBOSE cfg then [Print (DbgRetrieved (length contents) sz (hd ck))] else [])"
        by (simp add: w6_def print_if_def print_def emit_def)
      have f5: "files w5 pc = Some []"
        using files_device_read_eq [OF r4] files_device_read_eq [OF r5] f2
        by (simp add: w3_def)
      have f6: "files w6 pc = Some []" using f5 by (simp add: w6_def)
      have g5: "grows w1 w5"
        unfolding grows_def t5 t4 t3 t2 by simp
      have g6: "grows w1 w6"
        unfolding grows_def t6 t5 t4 t3 t2 by simp
      have skip6: "grows w1 (snd (wait_ready (print m w6)))
          \<and> files (snd (wait_ready (print m w6))) pc = Some []" for m
        using grows_trans [OF g6 grows_trans [OF grows_print grows_wait_ready], of m] f6
        by simp
      have D': "(if ck = [] then (Inl IndexError, w5)
          else if length contents \<noteq> sz
            then wait_ready (print (ErrIncomplete (length contents) sz) w6)
          else if calculate_checksum [sb, contents] \<noteq> uint (hd ck)
            then wait_ready (print ErrChecksum w6)
          else wait_ready (file_write pc contents w6)) = (res, w')"
        using D rd' rd r4 [unfolded w3_def] r5
        by (auto simp: body Let_def w6_def)
      consider (ie) "ck = []" | (short) "ck \<noteq> []" "length contents \<noteq> sz"
        | (bad) "ck \<noteq> []" "length contents = sz" "calculate_checksum [sb, contents] \<noteq> uint (hd ck)"
        | (ok) "ck \<noteq> []" "length contents = sz" "calculate_checksum [sb, contents] = uint (hd ck)"
        by blast
      then show ?thesis
      proof cases
        case ie
        with D' have "w' = w5" by simp
        with g5 f5 show ?thesis by simp
      next
        case short
        with D' have "w' = snd (wait_ready (print (ErrIncomplete (length contents) sz) w6))"
          by simp
        with skip6 show ?thesis by simp
      next
        case bad
        with D' have "w' = snd (wait_ready (print ErrChecksum w6))"
          by simp
        with skip6 show ?thesis by simp
      next
        case ok
        define w7 where "w7 = file_write pc contents w6"
        from ok D' have w': "w' = snd (wait_ready w7)"
          by (simp add: w7_def)
        from wait_ready_events [of w7] obtain pevs where
          pevs: "trace w' = trace w7 @ pevs" "list_all prompt_event pevs"
          unfolding w' by blast
        have t7: "trace w7 = trace w6 @ [FWrite pc contents]"
          by (simp add: w7_def file_write_def emit_def)
        have f': "files w' pc = Some contents"
          unfolding w' by (simp add: w7_def file_write_def emit_def)
        from r5 ok(1) obtain c where ck: "ck = [c]"
          by (cases "rx w4"; cases ck)
             (auto simp: device_read_def take_rx_Nil take_rx_Cons split: option.splits prod.splits)
        from device_read_full [OF r5] ck have rx4: "rx w4 = Some c # rx w5" by simp
        from device_read_full [OF r4 ok(2)] have rx3: "rx w3 = map Some contents @ rx w4" .
        have rxw: "rx w = map Some (sb @ contents @ [c]) @ rx w5"
          using sb(1) rx3 rx4 by (simp add: w3_def)
        have lt: "length contents < 0xFFFFFFFD"
          using unpack_le32_bound [of sb] rd(1-3) sb(3) ok(2) by simp
        define evs where "evs = [Rx 4 sb]
            @ (if sz \<noteq> listed then [Print (WrnSizeChanged listed sz)] else [])
            @ [Rx sz contents, Rx 1 ck]
            @ (if VERBOSE cfg then [Print (DbgRetrieved (length contents) sz (hd ck))] else [])
            @ [FWrite pc contents] @ pevs"
        have tr: "trace w' = trace w1 @ evs"
          unfolding pevs(1) t7 t6 t5 t4 t3 t2 evs_def by simp
        have pe: "list_all (\<lambda>e. e \<noteq> Print (ErrNotExist dev) \<and> e \<noteq> Print (ErrCannotOpen dev)
                      \<and> e \<noteq> Print ErrChecksum \<and> (\<forall>got sz. e \<noteq> Print (ErrIncomplete got sz))) pevs"
          using pevs(2) by (induction pevs) (auto simp: prompt_event_def)
        have ev: "list_all (\<lambda>e. e \<noteq> Print (ErrNotExist dev) \<and> e \<noteq> Print (ErrCannotOpen dev)
                      \<and> e \<noteq> Print ErrChecksum \<and> (\<forall>got sz. e \<noteq> Print (ErrIncomplete got sz))) evs"
          unfolding evs_def using pe by simp
        have cs: "calculate_checksum [sb @ contents] = uint c"
          using ok(3) ck by (simp add: checksum_two_ranges)
        have gr: "grows w1 w'" unfolding grows_def tr by simp
        have un: "unpack_le32 sb = length contents" using sb(3) ok(2) by simp
        have ex: "\<exists>size_bytes contents ck r evs.
                rx w = map Some (size_bytes @ contents @ [ck]) @ r \<and> length size_bytes = 4
                \<and> unpack_le32 size_bytes = length contents \<and> length contents < 0xFFFFFFFD
                \<and> calculate_checksum [size_bytes @ contents] = uint ck
                \<and> files w' pc = Some contents
                \<and> trace w' = trace w1 @ evs
                \<and> list_all (\<lambda>e. e \<noteq> Print (ErrNotExist dev) \<and> e \<noteq> Print (ErrCannotOpen dev)
                      \<and> e \<noteq> Print ErrChecksum \<and> (\<forall>got sz. e \<noteq> Print (ErrIncomplete got sz))) evs"
          by (rule exI [of _ sb], rule exI [of _ contents], rule exI [of _ c],
              rule exI [of _ "rx w5"], rule exI [of _ evs])
             (simp only: rxw sb(2) un lt cs f' tr ev simp_thms)
        from gr ex show ?thesis by - (rule conjI, assumption, rule disjI2, assumption)
      qed
    qed
  qed
qed

text \<open>
  The path of the dump loop that handles a short content read. When the content read
  returns fewer bytes than the size announced because a read timeout came first, and
  the one-byte read that follows (taken as the checksum) returns a byte, and the
  ready-prompt read after it returns \<open>0x3E\<close>, then the file is skipped: the
  incomplete-reception error is printed, the destination stays empty, the prompt is
  consumed, and the dump loop goes on with the next file.
\<close>

lemma short_content_skips_file:
  assumes cr: "creatable cfg (path_join (FS_PATH cfg) (drop 1 dev))"
    and enc: "ascii_encode (''R:'' @ dev @ [CHR 0x0A]) = Inr cmd"
    and len: "length size_bytes = 4"
    and sz: "unpack_le32 size_bytes < 0xFFFFFFFD"
    and listed: "map_of fs_listing dev = Some listed"
    and short: "length contents < unpack_le32 size_bytes"
    and rx: "rx w = map Some (size_bytes @ contents) @ None # Some c # Some 0x3E # r"
    and w': "w' = w\<lparr>rx := r, trace := trace w
        @ [Print (MsgDumpFile dev (path_join (FS_PATH cfg) (drop 1 dev))),
           FOpen (path_join (FS_PATH cfg) (drop 1 dev)), Tx cmd, Rx 4 size_bytes]
        @ (if unpack_le32 size_bytes \<noteq> listed
           then [Print (WrnSizeChanged listed (unpack_le32 size_bytes))] else [])
        @ [Rx (unpack_le32 size_bytes) contents, Rx 1 [c]]
        @ (if VERBOSE cfg
           then [Print (DbgRetrieved (length contents) (unpack_le32 size_bytes) c)] else [])
        @ [Print (ErrIncomplete (length contents) (unpack_le32 size_bytes)), Rx 1 [0x3E]],
        files := (files w)(path_join (FS_PATH cfg) (drop 1 dev) \<mapsto> [])\<rparr>"
  shows "dump_file cfg fs_listing dev w = (Inr (), w')
     \<and> dump_loop cfg fs_listing (dev # rest) w = dump_loop cfg fs_listing rest w'"
proof -
  define pc where "pc = path_join (FS_PATH cfg) (drop 1 dev)"
  define n where "n = unpack_le32 size_bytes"
  define w2 where "w2 = w\<lparr>rx := map Some contents @ None # Some c # Some 0x3E # r,
        trace := trace w @ [Print (MsgDumpFile dev pc), FOpen pc, Tx cmd, Rx 4 size_bytes],
        files := (files w)(pc \<mapsto> [])\<rparr>"
  define w3 where "w3 = print_if (n \<noteq> listed) (WrnSizeChanged listed n) w2"
  define w4 where "w4 = w3\<lparr>rx := Some c # Some 0x3E # r, trace := trace w3 @ [Rx n contents]\<rparr>"
  define w5 where "w5 = w4\<lparr>rx := Some 0x3E # r, trace := trace w4 @ [Rx 1 [c]]\<rparr>"
  define w6 where "w6 = print (ErrIncomplete (length contents) n)
      (print_if (VERBOSE cfg) (DbgRetrieved (length contents) n c) w5)"
  from rx have rx': "rx w = map Some size_bytes @ (map Some contents @ None # Some c # Some 0x3E # r)"
    by simp
  note ds = dump_file_sized [OF cr enc len rx', of w2 fs_listing, folded pc_def n_def,
      OF w2_def]
  have "take_rx n (rx w3) = (contents, Some c # Some 0x3E # r)"
    using take_rx_short [of contents n "Some c # Some 0x3E # r"] short
    by (simp add: w3_def w2_def n_def)
  then have r1: "device_read n w3 = (contents, w4)"
    by (simp add: device_read_def emit_def w4_def)
  have r2: "device_read 1 w4 = ([c], w5)"
    by (simp add: device_read_def emit_def w4_def w5_def)
  have wr: "wait_ready w6 = (Inr (), w6\<lparr>rx := r, trace := trace w6 @ [Rx 1 [0x3E]]\<rparr>)"
    by (simp add: wait_ready_def device_read_def emit_def w6_def w5_def)
  have eq: "w6\<lparr>rx := r, trace := trace w6 @ [Rx 1 [0x3E]]\<rparr> = w'"
    unfolding w' pc_def [symmetric] n_def [symmetric]
    by (auto simp: w6_def w5_def w4_def w3_def w2_def print_def print_if_def emit_def
        intro!: world.equality)
  have "dump_file cfg fs_listing dev w = wait_ready w6"
    using sz short listed r1 [unfolded w3_def] r2
    by (simp add: ds Let_def w6_def flip: n_def)
  then have d: "dump_file cfg fs_listing dev w = (Inr (), w')"
    by (simp only: wr eq)
  then show ?thesis by simp
qed

lemmas dump_eval_simps = dump_file_def Let_def read_32le_def print_def print_if_def
  device_write_def open_wb_def file_write_def dump_run_simps

lemma short_content_skips_file_example:
  "dump_file test_config [(''/a'', 2)] ''/a''
       (start (map Some ([2, 0, 0, 0] @ [0x41]) @ None # Some 0x99 # Some 0x3E # [])) =
     (Inr (), \<lparr>rx = [],
        trace = [Print (MsgDumpFile ''/a'' ''fs/a''), FOpen ''fs/a'', Tx [0x52, 0x3A, 0x2F, 0x61, 0x0A],
                 Rx 4 [2, 0, 0, 0], Rx 2 [0x41], Rx 1 [0x99], Print (ErrIncomplete 1 2),
                 Rx 1 [0x3E]],
        files = [''fs/a'' \<mapsto> []]\<rparr>)"
proof -
  have cr: "creatable test_config (path_join (FS_PATH test_config) (drop 1 ''/a''))"
    by (simp add: test_config_def)
  have enc: "ascii_encode (''R:'' @ ''/a'' @ [CHR 0x0A]) = Inr [0x52, 0x3A, 0x2F, 0x61, 0x0A]"
    by (simp add: ascii_encode_def)
  have len: "length [2, 0, 0, 0 :: byte] = 4" by simp
  have sz: "unpack_le32 [2, 0, 0, 0] < 0xFFFFFFFD" by (simp add: unpack_le32_def)
  have listed: "map_of [(''/a'', 2 :: nat)] ''/a'' = Some 2" by simp
  have short: "length [0x41 :: byte] < unpack_le32 [2, 0, 0, 0]" by (simp add: unpack_le32_def)
  have rx: "rx (start (map Some ([2, 0, 0, 0] @ [0x41]) @ None # Some 0x99 # Some 0x3E # []))
      = map Some ([2, 0, 0, 0] @ [0x41]) @ None # Some 0x99 # Some 0x3E # []"
    by (simp add: start_def)
  from short_content_skips_file [OF cr enc len sz listed short rx refl, of "[]", THEN conjunct1]
  show ?thesis
    by (simp add: test_config_def start_def path_join_def unpack_le32_def)
qed

text \<open>
  Claim C9: a short content read is a per-file error, the file is skipped, the prompt is
  consumed and the dump loop goes on. The code reaches its handling of the short read
  only after \<^verbatim>\<open>checksum = device.read()[0]\<close>, which indexes the result of the read
  without testing its length, unlike the other single reads of the script. Here the
  device announces two bytes, delivers one, stays silent for two read timeouts and then
  sends the ready prompt. The one-byte read for the checksum returns nothing, indexing
  it raises \<^verbatim>\<open>IndexError\<close>, and the session ends there: no error is printed for the
  file, the prompt is left unread, and the second file of the listing is never
  requested.
\<close>

theorem short_content_then_silence_raises:
  "dump_loop test_config [(''/a'', 2), (''/b'', 1)] [''/a'', ''/b'']
       (start (map Some [2, 0, 0, 0, 0x41] @ [None, None, Some 0x3E])) =
     (Inl IndexError, \<lparr>rx = [Some 0x3E],
        trace = [Print (MsgDumpFile ''/a'' ''fs/a''), FOpen ''fs/a'', Tx [0x52, 0x3A, 0x2F, 0x61, 0x0A],
                 Rx 4 [2, 0, 0, 0], Rx 2 [0x41], Rx 1 []],
        files = [''fs/a'' \<mapsto> []]\<rparr>)"
  by (simp add: dump_eval_simps)

text \<open>
  Claim C10. In one iteration of the dump loop, the first three events are the progress
  line, the opening of the destination file and the write of \<^verbatim>\<open>R:<path>\<close>, in this
  order: the file exists, empty, before the command is issued. Whenever one of the four
  per-file errors is printed (does not exist, cannot be opened, incomplete reception,
  checksum failure), the destination is empty at the end of the iteration. And whatever
  the device does, the destination ends either empty or holding exactly the content the
  device delivered in full with a matching checksum after a size that is no sentinel.
\<close>

theorem dump_creates_file_first:
  assumes cr: "creatable cfg pc"
    and enc: "ascii_encode (''R:'' @ dev @ [CHR 0x0A]) = Inr cmd"
    and D: "dump_file cfg fs_listing dev w = (res, w')"
    and pc: "pc = path_join (FS_PATH cfg) (drop 1 dev)"
  shows "take 3 (new_events w w') = [Print (MsgDumpFile dev pc), FOpen pc, Tx cmd]
     \<and> (Print (ErrNotExist dev) \<in> set (new_events w w')
          \<or> Print (ErrCannotOpen dev) \<in> set (new_events w w')
          \<or> (\<exists>got sz. Print (ErrIncomplete got sz) \<in> set (new_events w w'))
          \<or> Print ErrChecksum \<in> set (new_events w w')
        \<longrightarrow> files w' pc = Some [])
     \<and> (files w' pc = Some []
          \<or> (\<exists>size_bytes contents ck r.
                rx w = map Some (size_bytes @ contents @ [ck]) @ r \<and> length size_bytes = 4
                \<and> unpack_le32 size_bytes = length contents \<and> length contents < 0xFFFFFFFD
                \<and> calculate_checksum [size_bytes @ contents] = uint ck
                \<and> files w' pc = Some contents))"
proof -
  define w1 where "w1 = device_write cmd (open_wb pc (print (MsgDumpFile dev pc) w))"
  have t1: "trace w1 = trace w @ [Print (MsgDumpFile dev pc), FOpen pc, Tx cmd]"
    by (simp add: w1_def device_write_def open_wb_def print_def emit_def)
  note out = dump_file_outcome [OF cr enc D pc w1_def]
  from out obtain evs where evs: "trace w' = trace w1 @ evs"
    by (auto simp: grows_def)
  have ne: "new_events w w' = [Print (MsgDumpFile dev pc), FOpen pc, Tx cmd] @ evs"
    by (simp add: new_events_def evs t1)
  have first: "take 3 (new_events w w') = [Print (MsgDumpFile dev pc), FOpen pc, Tx cmd]"
    unfolding ne by simp
  from out have "files w' pc = Some []
      \<or> (\<exists>size_bytes contents ck r evs'.
                rx w = map Some (size_bytes @ contents @ [ck]) @ r \<and> length size_bytes = 4
                \<and> unpack_le32 size_bytes = length contents \<and> length contents < 0xFFFFFFFD
                \<and> calculate_checksum [size_bytes @ contents] = uint ck
                \<and> files w' pc = Some contents
                \<and> trace w' = trace w1 @ evs'
                \<and> list_all (\<lambda>e. e \<noteq> Print (ErrNotExist dev) \<and> e \<noteq> Print (ErrCannotOpen dev)
                      \<and> e \<noteq> Print ErrChecksum \<and> (\<forall>got sz. e \<noteq> Print (ErrIncomplete got sz))) evs')"
    by (rule conjunct2)
  then show ?thesis
  proof
    assume "files w' pc = Some []"
    with first show ?thesis by simp
  next
    assume "\<exists>size_bytes contents ck r evs'.
                rx w = map Some (size_bytes @ contents @ [ck]) @ r \<and> length size_bytes = 4
                \<and> unpack_le32 size_bytes = length contents \<and> length contents < 0xFFFFFFFD
                \<and> calculate_checksum [size_bytes @ contents] = uint ck
                \<and> files w' pc = Some contents
                \<and> trace w' = trace w1 @ evs'
                \<and> list_all (\<lambda>e. e \<noteq> Print (ErrNotExist dev) \<and> e \<noteq> Print (ErrCannotOpen dev)
                      \<and> e \<noteq> Print ErrChecksum \<and> (\<forall>got sz. e \<noteq> Print (ErrIncomplete got sz))) evs'"
    then obtain size_bytes contents ck r evs' where
      s: "rx w = map Some (size_bytes @ contents @ [ck]) @ r" "length size_bytes = 4"
         "unpack_le32 size_bytes = length contents" "length contents < 0xFFFFFFFD"
         "calculate_checksum [size_bytes @ contents] = uint ck"
         "files w' pc = Some contents"
      and tr: "trace w' = trace w1 @ evs'"
      and quiet: "list_all (\<lambda>e. e \<noteq> Print (ErrNotExist dev) \<and> e \<noteq> Print (ErrCannotOpen dev)
                      \<and> e \<noteq> Print ErrChecksum \<and> (\<forall>got sz. e \<noteq> Print (ErrIncomplete got sz))) evs'"
      by blast
    from tr evs have "evs' = evs" by simp
    with quiet have "\<not> (Print (ErrNotExist dev) \<in> set (new_events w w')
          \<or> Print (ErrCannotOpen dev) \<in> set (new_events w w')
          \<or> (\<exists>got sz. Print (ErrIncomplete got sz) \<in> set (new_events w w'))
          \<or> Print ErrChecksum \<in> set (new_events w w'))"
      unfolding ne by (auto simp: list_all_iff)
    moreover from s have "\<exists>size_bytes contents ck r.
                rx w = map Some (size_bytes @ contents @ [ck]) @ r \<and> length size_bytes = 4
                \<and> unpack_le32 size_bytes = length contents \<and> length contents < 0xFFFFFFFD
                \<and> calculate_checksum [size_bytes @ contents] = uint ck
                \<and> files w' pc = Some contents"
      by (intro exI [of _ size_bytes] exI [of _ contents] exI [of _ ck] exI [of _ r]) simp
    ultimately show ?thesis using first by simp
  qed
qed

theorem dump_creates_file_first_witness:
  "take 3 (new_events (start (map Some [2, 0, 0, 0, 0x10, 0x20, 0xCE, 0x3E]))
      \<lparr>rx = [],
        trace = [Print (MsgDumpFile ''/a'' ''fs/a''), FOpen ''fs/a'', Tx [0x52, 0x3A, 0x2F, 0x61, 0x0A],
                 Rx 4 [2, 0, 0, 0], Rx 2 [0x10, 0x20], Rx 1 [0xCE], FWrite ''fs/a'' [0x10, 0x20],
                 Rx 1 [0x3E]],
        files = [''fs/a'' \<mapsto> [0x10, 0x20]]\<rparr>)
     = [Print (MsgDumpFile ''/a'' ''fs/a''), FOpen ''fs/a'', Tx [0x52, 0x3A, 0x2F, 0x61, 0x0A]]
   \<and> dump_file test_config [(''/a'', 2)] ''/a'' (start (map Some [2, 0, 0, 0, 0x10, 0x20, 0xCE, 0x3E])) =
     (Inr (), \<lparr>rx = [],
        trace = [Print (MsgDumpFile ''/a'' ''fs/a''), FOpen ''fs/a'', Tx [0x52, 0x3A, 0x2F, 0x61, 0x0A],
                 Rx 4 [2, 0, 0, 0], Rx 2 [0x10, 0x20], Rx 1 [0xCE], FWrite ''fs/a'' [0x10, 0x20],
                 Rx 1 [0x3E]],
        files = [''fs/a'' \<mapsto> [0x10, 0x20]]\<rparr>)
   \<and> dump_file test_config [(''/a'', 2)] ''/a'' (start (map Some [2, 0, 0, 0, 0x10, 0x20, 0xCF, 0x3E])) =
     (Inr (), \<lparr>rx = [],
        trace = [Print (MsgDumpFile ''/a'' ''fs/a''), FOpen ''fs/a'', Tx [0x52, 0x3A, 0x2F, 0x61, 0x0A],
                 Rx 4 [2, 0, 0, 0], Rx 2 [0x10, 0x20], Rx 1 [0xCF], Print ErrChecksum,
                 Rx 1 [0x3E]],
        files = [''fs/a'' \<mapsto> []]\<rparr>)"
proof -
  have cr: "creatable test_config ''fs/a''"
    by (simp add: test_config_def)
  have enc: "ascii_encode (''R:'' @ ''/a'' @ [CHR 0x0A]) = Inr [0x52, 0x3A, 0x2F, 0x61, 0x0A]"
    by (simp add: ascii_encode_def)
  have pc: "''fs/a'' = path_join (FS_PATH test_config) (drop 1 ''/a'')"
    by (simp add: test_config_def path_join_def)
  have ok: "dump_file test_config [(''/a'', 2)] ''/a'' (start (map Some [2, 0, 0, 0, 0x10, 0x20, 0xCE, 0x3E])) =
     (Inr (), \<lparr>rx = [],
        trace = [Print (MsgDumpFile ''/a'' ''fs/a''), FOpen ''fs/a'', Tx [0x52, 0x3A, 0x2F, 0x61, 0x0A],
                 Rx 4 [2, 0, 0, 0], Rx 2 [0x10, 0x20], Rx 1 [0xCE], FWrite ''fs/a'' [0x10, 0x20],
                 Rx 1 [0x3E]],
        files = [''fs/a'' \<mapsto> [0x10, 0x20]]\<rparr>)"
    by (simp add: dump_eval_simps)
  have bad: "dump_file test_config [(''/a'', 2)] ''/a'' (start (map Some [2, 0, 0, 0, 0x10, 0x20, 0xCF, 0x3E])) =
     (Inr (), \<lparr>rx = [],
        trace = [Print (MsgDumpFile ''/a'' ''fs/a''), FOpen ''fs/a'', Tx [0x52, 0x3A, 0x2F, 0x61, 0x0A],
                 Rx 4 [2, 0, 0, 0], Rx 2 [0x10, 0x20], Rx 1 [0xCF], Print ErrChecksum,
                 Rx 1 [0x3E]],
        files = [''fs/a'' \<mapsto> []]\<rparr>)"
    by (simp add: dump_eval_simps)
  from dump_creates_file_first [OF cr enc ok pc] dump_creates_file_first [OF cr enc bad pc] ok bad
  show ?thesis by simp
qed

end
